theory Spec2Isabelle
  imports Main "HOL-Library.Word" "HOL-Library.Sublist"
begin

section \<open>Data model of \<open>cmd/terraform-removed-remover/main.go\<close>\<close>

text \<open>
  A Go \<open>[]byte\<close> (and a Go \<open>string\<close>, which is a byte sequence too) is a list of
  \<open>char\<close>: HOL's \<open>char\<close> has exactly the 256 byte values.
\<close>

type_synonym bytes = "char list"
type_synonym path = string

abbreviation LF :: char where "LF \<equiv> CHR 0x0A"
abbreviation CR :: char where "CR \<equiv> CHR 0x0D"
abbreviation TAB :: char where "TAB \<equiv> CHR 0x09"
abbreviation SP :: char where "SP \<equiv> CHR 0x20"

text \<open>
  \<open>type Stats struct\<close>. The counters are Go \<open>int\<close>s (64 bits on the targets the
  tool is built for); \<open>+\<close> on \<open>64 word\<close> wraps as Go's does. The two timestamps are
  only touched by \<open>main\<close> and are kept as plain numbers.
\<close>

record Stats =
  FilesProcessed :: "64 word"
  FilesModified :: "64 word"
  RemovedBlocksRemoved :: "64 word"
  StartTime :: nat
  EndTime :: nat
  DryRun :: bool
  NormalizeWhitespace :: bool

text \<open>\<open>type byteRange struct { start, end int }\<close>, local to \<open>processFile\<close>.\<close>

record byteRange =
  range_start :: nat
  range_end :: nat

text \<open>
  What \<open>processFile\<close> reads of a \<open>*hclsyntax.Block\<close>: its \<open>Type\<close> and the byte
  offsets \<open>Range().Start.Byte\<close> and \<open>Range().End.Byte\<close>.
\<close>

record Block =
  Type :: string
  Start_Byte :: nat
  End_Byte :: nat

text \<open>
  The three ways \<open>processFile\<close> can leave the parsing step: diagnostics with errors
  (their text is \<open>diags.Error()\<close>), a body that is not a \<open>*hclsyntax.Body\<close>, or the
  top-level blocks of the body in source order.
\<close>

datatype parse_result = Diags string | OtherBody | SyntaxBody "Block list"

type_synonym disk = "path \<rightharpoonup> bytes"

text \<open>
  The library and system calls of \<open>processFile\<close> that are not code of this program:
  \<open>hclsyntax.ParseConfig\<close>, \<open>hclwrite.Format\<close> and \<open>os.WriteFile\<close>. A write returns
  the error text, if any, and the disk it leaves behind. \<open>os.ReadFile\<close> is a lookup
  in the disk; a path without an entry is one it cannot read (missing, a directory, not
  permitted), and \<open>ReadFile_error\<close> is the text of the error it returns for such a path.
\<close>

record externals =
  ReadFile_error :: "path \<Rightarrow> string"
  ParseConfig :: "bytes \<Rightarrow> path \<Rightarrow> parse_result"
  Format :: "bytes \<Rightarrow> bytes"
  WriteFile :: "path \<Rightarrow> bytes \<Rightarrow> disk \<Rightarrow> string option \<times> disk"

text \<open>
  The errors \<open>processFile\<close> returns, one constructor per \<open>fmt.Errorf\<close>, and their
  texts; a read error and a write error wrap the text of the system's error.
\<close>

datatype error =
    ReadError path string
  | ParseError path string
  | BodyTypeError path
  | WriteError path string

fun error_text :: "error \<Rightarrow> string" where
  "error_text (ReadError p msg) = ''error reading file '' @ p @ '': '' @ msg"
| "error_text (ParseError p msg) = ''error parsing '' @ p @ '': '' @ msg"
| "error_text (BodyTypeError p) = ''unexpected body type in '' @ p"
| "error_text (WriteError p msg) = ''error writing file '' @ p @ '': '' @ msg"

section \<open>The splicing loop\<close>

text \<open>
  \<open>for start > 0 && (result[start-1] == ' ' || result[start-1] == '\t') { start-- }\<close>.
  Reading \<open>result[start-1]\<close> beyond the slice panics: that is \<open>None\<close>.
\<close>

fun extend_start :: "bytes \<Rightarrow> nat \<Rightarrow> nat option" where
  "extend_start result 0 = Some 0"
| "extend_start result (Suc n) =
     (if n < length result
      then (if result ! n = SP \<or> result ! n = TAB then extend_start result n
            else Some (Suc n))
      else None)"

text \<open>
  \<open>for end < len(result) && (result[end] == '\r' || result[end] == '\n') {
       end++; if result[end-1] == '\n' { break } }\<close>
\<close>

function extend_end :: "bytes \<Rightarrow> nat \<Rightarrow> nat" where
  "extend_end result e =
     (if e < length result \<and> (result ! e = CR \<or> result ! e = LF)
      then (if result ! e = LF then Suc e else extend_end result (Suc e))
      else e)"
  by pat_completeness auto
termination
  by (relation "measure (\<lambda>(result, e). length result - e)") auto

declare extend_end.simps [simp del]

text \<open>
  One pass of the loop body: both boundaries are moved, then
  \<open>result = append(result[:start], result[end:]...)\<close>. The slice expression
  \<open>result[end:]\<close> panics when \<open>end\<close> is beyond the length.
\<close>

definition remove_range :: "bytes \<Rightarrow> byteRange \<Rightarrow> bytes option" where
  "remove_range result r =
     (case extend_start result (range_start r) of
        None \<Rightarrow> None
      | Some s \<Rightarrow>
          if length result < range_end r then None
          else Some (take s result @ drop (extend_end result (range_end r)) result))"

fun remove_ranges :: "bytes \<Rightarrow> byteRange list \<Rightarrow> bytes option" where
  "remove_ranges result [] = Some result"
| "remove_ranges result (r # rs) =
     (case remove_range result r of
        None \<Rightarrow> None
      | Some result' \<Rightarrow> remove_ranges result' rs)"

text \<open>\<open>for i := len(removedRanges) - 1; i >= 0; i--\<close>: the ranges are taken last first.\<close>

definition splice_ranges :: "bytes \<Rightarrow> byteRange list \<Rightarrow> bytes option" where
  "splice_ranges content removedRanges = remove_ranges content (rev removedRanges)"

text \<open>
  \<open>resultContent := content; if fileModified { ... resultContent = result }\<close>:
  the loop runs only when a range was located.
\<close>

definition resultContent :: "bytes \<Rightarrow> byteRange list \<Rightarrow> bytes option" where
  "resultContent content removedRanges =
     (if 0 < length removedRanges then splice_ranges content removedRanges else Some content)"

section \<open>\<open>normalizeConsecutiveNewlines\<close>\<close>

text \<open>
  \<open>strings.NewReplacer("\n\n\n", "\n\n", "\r\n\r\n\r\n", "\r\n\r\n").Replace\<close>: the
  argument is scanned from the left; where an old string starts, its replacement is
  written and the scan goes on behind the match, otherwise one byte is copied.
\<close>

function re_Replace :: "bytes \<Rightarrow> bytes" where
  "re_Replace s =
     (if s = [] then []
      else if prefix [LF, LF, LF] s then [LF, LF] @ re_Replace (drop 3 s)
      else if prefix [CR, LF, CR, LF, CR, LF] s
        then [CR, LF, CR, LF] @ re_Replace (drop 6 s)
      else hd s # re_Replace (tl s))"
  by pat_completeness auto
termination
  by (relation "measure length") (auto simp: prefix_def)

declare re_Replace.simps [simp del]

lemma re_Replace_Nil: "re_Replace [] = []"
  by (simp add: re_Replace.simps)

lemma re_Replace_LF3:
  "prefix [LF, LF, LF] s \<Longrightarrow> re_Replace s = LF # LF # re_Replace (drop 3 s)"
  by (subst re_Replace.simps) (auto simp: prefix_def)

lemma re_Replace_CRLF3:
  "prefix [CR, LF, CR, LF, CR, LF] s \<Longrightarrow>
   re_Replace s = CR # LF # CR # LF # re_Replace (drop 6 s)"
  by (subst re_Replace.simps) (auto simp: prefix_def)

lemma re_Replace_copy:
  assumes "\<not> prefix [LF, LF, LF] (c # s)" and "\<not> prefix [CR, LF, CR, LF, CR, LF] (c # s)"
  shows "re_Replace (c # s) = c # re_Replace s"
proof -
  have "re_Replace (c # s) =
     (if c # s = [] then []
      else if prefix [LF, LF, LF] (c # s) then [LF, LF] @ re_Replace (drop 3 (c # s))
      else if prefix [CR, LF, CR, LF, CR, LF] (c # s)
        then [CR, LF, CR, LF] @ re_Replace (drop 6 (c # s))
      else hd (c # s) # re_Replace (tl (c # s)))"
    by (rule re_Replace.simps)
  with assms show ?thesis
    by (simp only: if_False list.sel list.distinct)
qed

lemma length_re_Replace: "length (re_Replace s) \<le> length s"
proof (induction s rule: re_Replace.induct)
  case (1 s)
  consider (nil) "s = []"
    | (lf) "s \<noteq> []" "prefix [LF, LF, LF] s"
    | (crlf) "s \<noteq> []" "\<not> prefix [LF, LF, LF] s" "prefix [CR, LF, CR, LF, CR, LF] s"
    | (copy) "s \<noteq> []" "\<not> prefix [LF, LF, LF] s" "\<not> prefix [CR, LF, CR, LF, CR, LF] s"
    by blast
  then show ?case
  proof cases
    case nil
    then show ?thesis by (simp add: re_Replace_Nil)
  next
    case lf
    then have "3 \<le> length s" by (auto simp: prefix_def)
    with lf "1.IH"(1) show ?thesis by (simp add: re_Replace_LF3)
  next
    case crlf
    then have "6 \<le> length s" by (auto simp: prefix_def)
    with crlf "1.IH"(2) show ?thesis by (simp add: re_Replace_CRLF3)
  next
    case copy
    then obtain c t where s: "s = c # t" by (cases s) auto
    with copy "1.IH"(3) show ?thesis by (simp add: re_Replace_copy)
  qed
qed

lemma re_Replace_shorter: "re_Replace s \<noteq> s \<Longrightarrow> length (re_Replace s) < length s"
proof (induction s rule: re_Replace.induct)
  case (1 s)
  consider (nil) "s = []"
    | (lf) "s \<noteq> []" "prefix [LF, LF, LF] s"
    | (crlf) "s \<noteq> []" "\<not> prefix [LF, LF, LF] s" "prefix [CR, LF, CR, LF, CR, LF] s"
    | (copy) "s \<noteq> []" "\<not> prefix [LF, LF, LF] s" "\<not> prefix [CR, LF, CR, LF, CR, LF] s"
    by blast
  then show ?case
  proof cases
    case nil
    with "1.prems" show ?thesis by (simp add: re_Replace_Nil)
  next
    case lf
    then have "3 \<le> length s" by (auto simp: prefix_def)
    with lf length_re_Replace [of "drop 3 s"] show ?thesis
      by (simp add: re_Replace_LF3)
  next
    case crlf
    then have "6 \<le> length s" by (auto simp: prefix_def)
    with crlf length_re_Replace [of "drop 6 s"] show ?thesis
      by (simp add: re_Replace_CRLF3)
  next
    case copy
    then obtain c t where s: "s = c # t" by (cases s) auto
    with copy have eq: "re_Replace s = c # re_Replace t"
      by (simp add: re_Replace_copy)
    with "1.prems" s have "re_Replace t \<noteq> t" by simp
    with "1.IH"(3) copy s have "length (re_Replace t) < length t" by simp
    with eq s show ?thesis by simp
  qed
qed

text \<open>
  \<open>for { newContent := re.Replace(contentStr);
         if newContent == contentStr { break }; contentStr = newContent }\<close>
\<close>

function collapse :: "bytes \<Rightarrow> bytes" where
  "collapse contentStr =
     (let newContent = re_Replace contentStr
      in if newContent = contentStr then contentStr else collapse newContent)"
  by pat_completeness auto
termination
  by (relation "measure length") (auto dest: re_Replace_shorter)

declare collapse.simps [simp del]

text \<open>\<open>strings.ReplaceAll(s, "\r\n", "\n")\<close>\<close>

fun crlf_to_lf :: "bytes \<Rightarrow> bytes" where
  "crlf_to_lf [] = []"
| "crlf_to_lf [c] = [c]"
| "crlf_to_lf (c # d # s) =
     (if c = CR \<and> d = LF then LF # crlf_to_lf s else c # crlf_to_lf (d # s))"

text \<open>\<open>strings.TrimRight(s, "\n")\<close>\<close>

definition TrimRight_LF :: "bytes \<Rightarrow> bytes" where
  "TrimRight_LF s = rev (dropWhile (\<lambda>c. c = LF) (rev s))"

text \<open>\<open>bytes.Contains(content, []byte("\r\n"))\<close>\<close>

fun contains_crlf :: "bytes \<Rightarrow> bool" where
  "contains_crlf [] = False"
| "contains_crlf [c] = False"
| "contains_crlf (c # d # s) = ((c = CR \<and> d = LF) \<or> contains_crlf (d # s))"

text \<open>\<open>strings.ReplaceAll(s, "\n", "\r\n")\<close>\<close>

fun lf_to_crlf :: "bytes \<Rightarrow> bytes" where
  "lf_to_crlf [] = []"
| "lf_to_crlf (c # s) = (if c = LF then CR # LF # lf_to_crlf s else c # lf_to_crlf s)"

definition normalizeConsecutiveNewlines :: "bytes \<Rightarrow> bytes" where
  "normalizeConsecutiveNewlines content =
     (let contentStr = collapse content;
          contentStr = crlf_to_lf contentStr;
          contentStr = TrimRight_LF contentStr @ [LF]
      in if contains_crlf content then lf_to_crlf contentStr else contentStr)"

text \<open>
  A buffer in which \<open>\r\<close> and \<open>\n\<close> occur only as the pair \<open>\r\n\<close>: the CRLF
  line-ending style. The LF style is a buffer without any \<open>\r\<close>.
\<close>

fun crlf_only :: "bytes \<Rightarrow> bool" where
  "crlf_only [] = True"
| "crlf_only [c] = (c \<noteq> CR \<and> c \<noteq> LF)"
| "crlf_only (c # d # s) =
     (if c = CR then d = LF \<and> crlf_only s else c \<noteq> LF \<and> crlf_only (d # s))"

text \<open>
  What is assumed of the ranges the parser reports, in source order: each lies inside
  the content, and between the end of one and the start of the next there is a line
  feed (a block is closed on its own line before the next one opens).
\<close>

fun separated :: "bytes \<Rightarrow> byteRange list \<Rightarrow> bool" where
  "separated content [] = True"
| "separated content [r] = (range_start r \<le> range_end r \<and> range_end r \<le> length content)"
| "separated content (r # r' # rs) =
     (range_start r \<le> range_end r
      \<and> LF \<in> set (drop (range_end r) (take (range_start r') content))
      \<and> separated content (r' # rs))"

text \<open>
  A located range as the loop widens it in the content: the start moved back by the loop
  over the start, the end moved forward by the loop over the end.
\<close>

definition widened :: "bytes \<Rightarrow> byteRange \<Rightarrow> nat \<times> nat" where
  "widened content r =
     (the (extend_start content (range_start r)), extend_end content (range_end r))"

text \<open>
  Cutting intervals out of a buffer from left to right: the bytes from \<open>pos\<close> to the
  first interval are kept, the interval is left out, and so on behind it. \<open>chain\<close> says
  that the intervals are in order and do not overlap.
\<close>

fun cut :: "nat \<Rightarrow> bytes \<Rightarrow> (nat \<times> nat) list \<Rightarrow> bytes" where
  "cut pos c [] = drop pos c"
| "cut pos c ((s, e) # ws) = drop pos (take s c) @ cut e c ws"

fun chain :: "nat \<Rightarrow> (nat \<times> nat) list \<Rightarrow> bool" where
  "chain pos [] = True"
| "chain pos ((s, e) # ws) = (pos \<le> s \<and> s \<le> e \<and> chain e ws)"

section \<open>\<open>processFile\<close>\<close>

text \<open>
  \<open>for _, block := range syntaxBody.Blocks { if block.Type == "removed" { ... } }\<close>
\<close>

fun removedRanges :: "Block list \<Rightarrow> byteRange list" where
  "removedRanges [] = []"
| "removedRanges (block # blocks) =
     (if Type block = ''removed''
      then \<lparr>range_start = Start_Byte block, range_end = End_Byte block\<rparr> # removedRanges blocks
      else removedRanges blocks)"

text \<open>
  The result is the returned error (\<open>None\<close> for \<open>nil\<close>), the statistics and the disk
  after the call; the outer \<open>None\<close> is a run-time panic of the splicing loop.
\<close>

definition processFile ::
    "externals \<Rightarrow> path \<Rightarrow> Stats \<Rightarrow> disk \<Rightarrow> (error option \<times> Stats \<times> disk) option" where
  "processFile E filePath stats d =
     (case d filePath of
        None \<Rightarrow> Some (Some (ReadError filePath (ReadFile_error E filePath)), stats, d)
      | Some content \<Rightarrow>
         (case ParseConfig E content filePath of
            Diags msg \<Rightarrow> Some (Some (ParseError filePath msg), stats, d)
          | OtherBody \<Rightarrow> Some (Some (BodyTypeError filePath), stats, d)
          | SyntaxBody blocks \<Rightarrow>
             (let ranges = removedRanges blocks;
                  removedBlocksCount = length ranges;
                  fileModified = (0 < removedBlocksCount);
                  stats = stats\<lparr>FilesProcessed := FilesProcessed stats + 1\<rparr>
              in if \<not> DryRun stats then
                   (case resultContent content ranges of
                      None \<Rightarrow> None
                    | Some result \<Rightarrow>
                       (let formattedContent = Format E result;
                            formattedContent =
                              (if fileModified \<and> NormalizeWhitespace stats
                               then normalizeConsecutiveNewlines formattedContent
                               else formattedContent)
                        in if fileModified \<or> formattedContent \<noteq> content then
                             (let stats = stats\<lparr>FilesModified := FilesModified stats + 1\<rparr>;
                                  stats = (if fileModified
                                           then stats\<lparr>RemovedBlocksRemoved :=
                                                  RemovedBlocksRemoved stats + of_nat removedBlocksCount\<rparr>
                                           else stats)
                              in case WriteFile E filePath formattedContent d of
                                   (Some msg, d') \<Rightarrow> Some (Some (WriteError filePath msg), stats, d')
                                 | (None, d') \<Rightarrow> Some (None, stats, d'))
                           else Some (None, stats, d)))
                 else if fileModified then
                   Some (None,
                         stats\<lparr>FilesModified := FilesModified stats + 1,
                               RemovedBlocksRemoved :=
                                 RemovedBlocksRemoved stats + of_nat removedBlocksCount\<rparr>,
                         d)
                 else Some (None, stats, d))))"

section \<open>Sample inputs\<close>

text \<open>\<open>Stats{}\<close>, the zero value the tests start from.\<close>

definition stats0 :: Stats where
  "stats0 = \<lparr>FilesProcessed = 0, FilesModified = 0, RemovedBlocksRemoved = 0,
             StartTime = 0, EndTime = 0, DryRun = False, NormalizeWhitespace = False\<rparr>"

text \<open>
  Stand-ins for the library calls, for running the model on a given file: a parser with
  a fixed answer, a given formatter, a write that either stores the bytes or fails and
  leaves the disk as it was, and the system's message for a missing file as the text of
  a failed read.
\<close>

definition fixed_externals :: "parse_result \<Rightarrow> (bytes \<Rightarrow> bytes) \<Rightarrow> bool \<Rightarrow> externals" where
  "fixed_externals answer formatter write_fails =
     \<lparr>ReadFile_error = (\<lambda>p. ''open '' @ p @ '': no such file or directory''),
      ParseConfig = (\<lambda>content filename. answer),
      Format = formatter,
      WriteFile = (\<lambda>p b d. if write_fails then (Some ''permission denied'', d)
                             else (None, d(p \<mapsto> b)))\<rparr>"

text \<open>An indented \<open>removed\<close> block at bytes 4 to 14, followed by a blank line.\<close>

definition indented_tf :: bytes where
  "indented_tf = ''a'' @ [LF, SP, SP] @ ''removed {}'' @ [LF, LF] @ ''b'' @ [LF]"

text \<open>
  A comment that spells \<open>removed {\<close> on the line above a \<open>removed\<close> block; the block
  is bytes 12 to 23.
\<close>

definition commented_tf :: bytes where
  "commented_tf = ''# removed {'' @ [LF] @ ''removed {'' @ [LF] @ ''}'' @ [LF]"

text \<open>A formatter that only knows how to space out the one-line file \<open>a=1\<close>.\<close>

definition spacing_formatter :: "bytes \<Rightarrow> bytes" where
  "spacing_formatter b = (if b = ''a=1'' @ [LF] then ''a = 1'' @ [LF] else b)"

text \<open>
  Two \<open>removed\<close> blocks, bytes 0 to 10 and 20 to 30, the second indented and with a
  comment line directly above it.
\<close>

definition two_blocks_tf :: bytes where
  "two_blocks_tf = ''removed {}'' @ [LF] @ ''# note'' @ [LF, SP, SP] @ ''removed {}'' @ [LF]"

text \<open>
  Two \<open>removed\<close> blocks in a file with CRLF line ends, bytes 0 to 10 and 16 to 26, the
  second behind a tab and with a blank line after it.
\<close>

definition crlf_tf :: bytes where
  "crlf_tf = ''removed {}'' @ [CR, LF] @ ''a'' @ [CR, LF, TAB] @ ''removed {}'' @ [CR, LF, CR, LF]"

section \<open>Boundaries of one deletion\<close>

lemma extend_start_Some:
  "s \<le> length result \<Longrightarrow>
   \<exists>s'. extend_start result s = Some s' \<and> s' \<le> s \<and>
        (\<forall>i. s' \<le> i \<and> i < s \<longrightarrow> result ! i = SP \<or> result ! i = TAB) \<and>
        (0 < s' \<longrightarrow> result ! (s' - 1) \<noteq> SP \<and> result ! (s' - 1) \<noteq> TAB)"
proof (induction s)
  case 0
  then show ?case by simp
next
  case (Suc n)
  show ?case
  proof (cases "result ! n = SP \<or> result ! n = TAB")
    case True
    from Suc obtain s' where s': "extend_start result n = Some s'" "s' \<le> n"
      "\<forall>i. s' \<le> i \<and> i < n \<longrightarrow> result ! i = SP \<or> result ! i = TAB"
      "0 < s' \<longrightarrow> result ! (s' - 1) \<noteq> SP \<and> result ! (s' - 1) \<noteq> TAB"
      by auto
    have "\<forall>i. s' \<le> i \<and> i < Suc n \<longrightarrow> result ! i = SP \<or> result ! i = TAB"
      using s'(3) True by (auto simp: less_Suc_eq)
    with s' True Suc.prems show ?thesis by auto
  next
    case False
    with Suc.prems show ?thesis by auto
  qed
qed

lemma extend_start_None: "length result < s \<Longrightarrow> extend_start result s = None"
  by (cases s) auto

lemma extend_end_bounds: "e \<le> length result \<Longrightarrow> e \<le> extend_end result e \<and> extend_end result e \<le> length result"
proof (induction result e rule: extend_end.induct)
  case (1 result e)
  show ?case
  proof (cases "e < length result \<and> (result ! e = CR \<or> result ! e = LF)")
    case True
    then show ?thesis using 1 by (subst (1 2) extend_end.simps) auto
  next
    case False
    then show ?thesis using 1 by (subst (1 2) extend_end.simps) auto
  qed
qed

lemma extend_end_stop:
  "e = length result \<or> (result ! e \<noteq> CR \<and> result ! e \<noteq> LF) \<Longrightarrow> extend_end result e = e"
  by (subst extend_end.simps) auto

lemma extend_end_LF:
  "e < length result \<Longrightarrow> result ! e = LF \<Longrightarrow> extend_end result e = Suc e"
  by (subst extend_end.simps) auto

lemma extend_end_CR:
  "e < length result \<Longrightarrow> result ! e = CR \<Longrightarrow> extend_end result e = extend_end result (Suc e)"
  by (subst extend_end.simps) auto

lemma drop_take_Suc:
  "e < e' \<Longrightarrow> e' \<le> length xs \<Longrightarrow> drop e (take e' xs) = xs ! e # drop (Suc e) (take e' xs)"
proof -
  assume a: "e < e'" "e' \<le> length xs"
  then have "e < length (take e' xs)" by simp
  then have "drop e (take e' xs) = take e' xs ! e # drop (Suc e) (take e' xs)"
    by (rule Cons_nth_drop_Suc [symmetric])
  with a show ?thesis by simp
qed

lemma extend_end_consumed:
  "e \<le> length result \<Longrightarrow>
   \<exists>n. drop e (take (extend_end result e) result) = replicate n CR @ [LF]
     \<or> (drop e (take (extend_end result e) result) = replicate n CR
        \<and> (extend_end result e < length result \<longrightarrow>
             result ! extend_end result e \<noteq> CR \<and> result ! extend_end result e \<noteq> LF))"
proof (induction result e rule: extend_end.induct)
  case (1 result e)
  consider (stop) "e = length result \<or> (result ! e \<noteq> CR \<and> result ! e \<noteq> LF)"
    | (lf) "e < length result" "result ! e = LF"
    | (cr) "e < length result" "result ! e = CR"
    using "1.prems" by force
  then show ?case
  proof cases
    case stop
    then have "extend_end result e = e" by (rule extend_end_stop)
    with stop show ?thesis by (intro exI [of _ 0]) auto
  next
    case lf
    then have "extend_end result e = Suc e" by (rule extend_end_LF)
    moreover have "drop e (take (Suc e) result) = [LF]"
      using lf by (simp add: drop_take_Suc)
    ultimately show ?thesis by (intro exI [of _ 0]) simp
  next
    case cr
    then have eq: "extend_end result e = extend_end result (Suc e)" by (rule extend_end_CR)
    let ?e' = "extend_end result (Suc e)"
    from cr have b: "Suc e \<le> ?e'" "?e' \<le> length result"
      using extend_end_bounds [of "Suc e" result] by auto
    from cr "1.IH" obtain n where n:
      "drop (Suc e) (take ?e' result) = replicate n CR @ [LF]
       \<or> (drop (Suc e) (take ?e' result) = replicate n CR
          \<and> (?e' < length result \<longrightarrow> result ! ?e' \<noteq> CR \<and> result ! ?e' \<noteq> LF))"
      by auto
    have "drop e (take ?e' result) = CR # drop (Suc e) (take ?e' result)"
      using b cr by (simp add: drop_take_Suc)
    with n eq show ?thesis by (intro exI [of _ "Suc n"]) auto
  qed
qed

lemma extend_end_prefix_LF:
  "prefix [LF] (drop e result) \<Longrightarrow> extend_end result e = e + 1"
proof -
  assume "prefix [LF] (drop e result)"
  then obtain zs where "drop e result = LF # zs" by (auto simp: prefix_def)
  then have "e < length result" "result ! e = LF"
    by (metis drop_eq_Nil leI list.distinct(1), metis nth_via_drop)
  then show ?thesis by (simp add: extend_end_LF)
qed

lemma extend_end_prefix_CRLF:
  "prefix [CR, LF] (drop e result) \<Longrightarrow> extend_end result e = e + 2"
proof -
  assume "prefix [CR, LF] (drop e result)"
  then obtain zs where z: "drop e result = CR # LF # zs" by (auto simp: prefix_def)
  then have 1: "e < length result" "result ! e = CR"
    by (metis drop_eq_Nil leI list.distinct(1), metis nth_via_drop)
  from z have "drop (Suc e) result = LF # zs"
    by (metis drop_Suc list.sel(3) tl_drop)
  then have 2: "Suc e < length result" "result ! Suc e = LF"
    by (metis drop_eq_Nil leI list.distinct(1), metis nth_via_drop)
  from 1 2 show ?thesis by (simp add: extend_end_CR extend_end_LF)
qed

text \<open>
  One pass of the loop on any buffer with the range inside it: the pass returns the
  buffer without the bytes from \<open>s\<close> to \<open>e\<close>, where \<open>s\<close> is the start moved back over
  the run of spaces and tabs before it and \<open>e\<close> is the end moved forward over the
  carriage returns behind it and one line feed behind them.
\<close>

lemma remove_range_boundaries:
  assumes "range_start r \<le> length result" and "range_end r \<le> length result"
  shows "\<exists>s e. remove_range result r = Some (take s result @ drop e result) \<and>
     s \<le> range_start r \<and>
     (\<forall>i. s \<le> i \<and> i < range_start r \<longrightarrow> result ! i = SP \<or> result ! i = TAB) \<and>
     (0 < s \<longrightarrow> result ! (s - 1) \<noteq> SP \<and> result ! (s - 1) \<noteq> TAB) \<and>
     range_end r \<le> e \<and> e \<le> length result \<and>
     (\<exists>n. drop (range_end r) (take e result) = replicate n CR @ [LF]
        \<or> (drop (range_end r) (take e result) = replicate n CR
           \<and> (e < length result \<longrightarrow> result ! e \<noteq> CR \<and> result ! e \<noteq> LF))) \<and>
     (prefix [LF] (drop (range_end r) result) \<longrightarrow> e = range_end r + 1) \<and>
     (prefix [CR, LF] (drop (range_end r) result) \<longrightarrow> e = range_end r + 2)"
proof -
  from assms(1) obtain s where s: "extend_start result (range_start r) = Some s"
    "s \<le> range_start r"
    "\<forall>i. s \<le> i \<and> i < range_start r \<longrightarrow> result ! i = SP \<or> result ! i = TAB"
    "0 < s \<longrightarrow> result ! (s - 1) \<noteq> SP \<and> result ! (s - 1) \<noteq> TAB"
    using extend_start_Some by blast
  let ?e = "extend_end result (range_end r)"
  have rr: "remove_range result r = Some (take s result @ drop ?e result)"
    using s(1) assms(2) by (simp add: remove_range_def)
  have b: "range_end r \<le> ?e \<and> ?e \<le> length result"
    using assms(2) by (rule extend_end_bounds)
  have c: "\<exists>n. drop (range_end r) (take ?e result) = replicate n CR @ [LF]
        \<or> (drop (range_end r) (take ?e result) = replicate n CR
           \<and> (?e < length result \<longrightarrow> result ! ?e \<noteq> CR \<and> result ! ?e \<noteq> LF))"
    using assms(2) by (rule extend_end_consumed)
  show ?thesis
    apply (rule exI [of _ s], rule exI [of _ ?e])
    using rr s(2,3,4) b c extend_end_prefix_LF extend_end_prefix_CRLF by blast
qed

section \<open>What \<open>normalizeConsecutiveNewlines\<close> guarantees\<close>

lemma re_Replace_cases:
  obtains (nil) "s = []"
  | (lf) r where "s = LF # LF # LF # r"
  | (crlf) r where "s = CR # LF # CR # LF # CR # LF # r"
  | (copy) c t where "s = c # t" "\<not> prefix [LF, LF, LF] s" "\<not> prefix [CR, LF, CR, LF, CR, LF] s"
proof (cases s)
  case Nil
  then show ?thesis by (rule nil)
next
  case (Cons c t)
  show ?thesis
  proof (cases "prefix [LF, LF, LF] s")
    case True
    then obtain r where "s = LF # LF # LF # r" by (auto simp: prefix_def)
    then show ?thesis by (rule lf)
  next
    case n3: False
    show ?thesis
    proof (cases "prefix [CR, LF, CR, LF, CR, LF] s")
      case True
      then obtain r where "s = CR # LF # CR # LF # CR # LF # r" by (auto simp: prefix_def)
      then show ?thesis by (rule crlf)
    next
      case False
      with Cons n3 show ?thesis by (rule copy)
    qed
  qed
qed

lemma re_Replace_LF3_Cons: "re_Replace (LF # LF # LF # r) = LF # LF # re_Replace r"
  by (simp add: re_Replace_LF3)

lemma re_Replace_CRLF3_Cons:
  "re_Replace (CR # LF # CR # LF # CR # LF # r) = CR # LF # CR # LF # re_Replace r"
  by (simp add: re_Replace_CRLF3)

lemma set_re_Replace: "set (re_Replace s) \<subseteq> set s"
proof (induction s rule: length_induct)
  case (1 s)
  show ?case
  proof (cases s rule: re_Replace_cases)
    case nil
    then show ?thesis by (simp add: re_Replace_Nil)
  next
    case (lf r)
    with 1 have "set (re_Replace r) \<subseteq> set r" by simp
    with lf show ?thesis by (auto simp: re_Replace_LF3_Cons)
  next
    case (crlf r)
    with 1 have "set (re_Replace r) \<subseteq> set r" by simp
    with crlf show ?thesis by (auto simp: re_Replace_CRLF3_Cons)
  next
    case (copy c t)
    with 1 have "set (re_Replace t) \<subseteq> set t" by simp
    moreover from copy have "re_Replace s = c # re_Replace t"
      using re_Replace_copy [of c t] by simp
    ultimately show ?thesis using copy(1) by auto
  qed
qed

lemma re_Replace_fixed_no_triple:
  "re_Replace s = s \<Longrightarrow>
   \<not> sublist [LF, LF, LF] s \<and> \<not> sublist [CR, LF, CR, LF, CR, LF] s"
proof (induction s)
  case Nil
  then show ?case by simp
next
  case (Cons c t)
  have n1: "\<not> prefix [LF, LF, LF] (c # t)"
  proof
    assume "prefix [LF, LF, LF] (c # t)"
    then have "length (re_Replace (c # t)) < length (c # t)"
      using length_re_Replace [of "drop 3 (c # t)"]
      by (subst re_Replace_LF3) (auto simp: prefix_def)
    with Cons.prems show False by simp
  qed
  have n2: "\<not> prefix [CR, LF, CR, LF, CR, LF] (c # t)"
  proof
    assume "prefix [CR, LF, CR, LF, CR, LF] (c # t)"
    then have "length (re_Replace (c # t)) < length (c # t)"
      using length_re_Replace [of "drop 6 (c # t)"]
      by (subst re_Replace_CRLF3) (auto simp: prefix_def)
    with Cons.prems show False by simp
  qed
  from n1 n2 have "re_Replace (c # t) = c # re_Replace t" by (rule re_Replace_copy)
  with Cons.prems have "re_Replace t = t" by simp
  with Cons.IH have "\<not> sublist [LF, LF, LF] t \<and> \<not> sublist [CR, LF, CR, LF, CR, LF] t" .
  with n1 n2 show ?case by (simp only: sublist_Cons_right) blast
qed

lemma collapse_fixed: "re_Replace (collapse s) = collapse s"
proof (induction s rule: collapse.induct)
  case (1 s)
  show ?case
  proof (cases "re_Replace s = s")
    case True
    then show ?thesis by (subst (1 2) collapse.simps) simp
  next
    case False
    with 1 show ?thesis by (subst (1 2) collapse.simps) simp
  qed
qed

lemma set_collapse: "set (collapse s) \<subseteq> set s"
proof (induction s rule: collapse.induct)
  case (1 s)
  show ?case
  proof (cases "re_Replace s = s")
    case True
    then show ?thesis by (subst collapse.simps) simp
  next
    case False
    with 1 have "set (collapse (re_Replace s)) \<subseteq> set (re_Replace s)" by simp
    with False set_re_Replace [of s] show ?thesis by (subst collapse.simps) auto
  qed
qed

lemma crlf_to_lf_no_CR: "CR \<notin> set s \<Longrightarrow> crlf_to_lf s = s"
  by (induction s rule: crlf_to_lf.induct) auto

lemma contains_crlf_CR: "contains_crlf s \<Longrightarrow> CR \<in> set s"
  by (induction s rule: contains_crlf.induct) auto

lemma TrimRight_LF_decomp: "\<exists>n. s = TrimRight_LF s @ replicate n LF"
proof -
  let ?P = "\<lambda>c. c = LF"
  let ?k = "takeWhile ?P (rev s)"
  have "rev (rev s) = rev (?k @ dropWhile ?P (rev s))"
    by (simp only: takeWhile_dropWhile_id)
  then have s: "s = TrimRight_LF s @ rev ?k"
    by (simp only: rev_rev_ident rev_append TrimRight_LF_def)
  have "\<forall>y\<in>set ?k. y = LF" by (auto dest: set_takeWhileD)
  then have "replicate (length ?k) LF = ?k" by (rule replicate_length_same)
  then have "rev ?k = replicate (length ?k) LF" by (metis rev_replicate)
  with s show ?thesis by metis
qed

lemma TrimRight_LF_last: "TrimRight_LF s \<noteq> [] \<Longrightarrow> last (TrimRight_LF s) \<noteq> LF"
  unfolding TrimRight_LF_def using hd_dropWhile [of "\<lambda>c. c = LF" "rev s"]
  by (simp add: last_rev)

lemma snoc_LF_no_triple:
  assumes "\<not> sublist [LF, LF, LF] t" and "t \<noteq> [] \<longrightarrow> last t \<noteq> LF"
  shows "\<not> sublist [LF, LF, LF] (t @ [LF])"
proof
  assume "sublist [LF, LF, LF] (t @ [LF])"
  with assms(1) have "suffix [LF, LF, LF] (t @ [LF])" by (simp add: sublist_snoc)
  then have "suffix [LF, LF] t" by (auto simp: suffix_def)
  then have "t \<noteq> [] \<and> last t = LF" by (auto simp: suffix_def)
  with assms(2) show False by simp
qed

lemma snoc_LF_single:
  assumes "t \<noteq> [] \<longrightarrow> last t \<noteq> LF"
  shows "suffix [LF] (t @ [LF]) \<and> \<not> suffix [LF, LF] (t @ [LF])"
proof -
  have "\<not> suffix [LF, LF] (t @ [LF])"
  proof
    assume "suffix [LF, LF] (t @ [LF])"
    then have "suffix [LF] t" by (auto simp: suffix_def)
    then have "t \<noteq> [] \<and> last t = LF" by (auto simp: suffix_def)
    with assms show False by simp
  qed
  then show ?thesis by (simp add: suffix_def)
qed

lemma normalize_LF:
  assumes "CR \<notin> set content"
  shows "normalizeConsecutiveNewlines content = TrimRight_LF (collapse content) @ [LF]"
    and "\<not> sublist [LF, LF, LF] (normalizeConsecutiveNewlines content)"
    and "suffix [LF] (normalizeConsecutiveNewlines content)"
    and "\<not> suffix [LF, LF] (normalizeConsecutiveNewlines content)"
    and "CR \<notin> set (normalizeConsecutiveNewlines content)"
proof -
  let ?c = "collapse content"
  let ?t = "TrimRight_LF ?c"
  from assms set_collapse [of content] have cr: "CR \<notin> set ?c" by auto
  from assms have "\<not> contains_crlf content" using contains_crlf_CR by blast
  with cr show eq: "normalizeConsecutiveNewlines content = ?t @ [LF]"
    by (simp add: normalizeConsecutiveNewlines_def crlf_to_lf_no_CR)
  obtain n where n: "?c = ?t @ replicate n LF" using TrimRight_LF_decomp by blast
  have "\<not> sublist [LF, LF, LF] ?c"
    using re_Replace_fixed_no_triple [OF collapse_fixed] by blast
  moreover have "sublist ?t ?c" by (subst (2) n) simp
  ultimately have nt: "\<not> sublist [LF, LF, LF] ?t"
    using sublist_order.order_trans by blast
  have last: "?t \<noteq> [] \<longrightarrow> last ?t \<noteq> LF" using TrimRight_LF_last by blast
  from nt last show "\<not> sublist [LF, LF, LF] (normalizeConsecutiveNewlines content)"
    unfolding eq by (rule snoc_LF_no_triple)
  from last show "suffix [LF] (normalizeConsecutiveNewlines content)"
    and "\<not> suffix [LF, LF] (normalizeConsecutiveNewlines content)"
    unfolding eq using snoc_LF_single by blast+
  have "set ?t \<subseteq> set ?c" by (subst (2) n) auto
  with cr show "CR \<notin> set (normalizeConsecutiveNewlines content)"
    unfolding eq by auto
qed

lemma lf_to_crlf_append: "lf_to_crlf (xs @ ys) = lf_to_crlf xs @ lf_to_crlf ys"
  by (induction xs) auto

lemma crlf_to_lf_Cons_other: "c \<noteq> CR \<Longrightarrow> crlf_to_lf (c # s) = c # crlf_to_lf s"
  by (cases s) auto

lemma crlf_to_lf_lf_to_crlf: "CR \<notin> set u \<Longrightarrow> crlf_to_lf (lf_to_crlf u) = u"
  by (induction u) (auto simp: crlf_to_lf_Cons_other)

lemma lf_to_crlf_inj:
  "CR \<notin> set u \<Longrightarrow> CR \<notin> set v \<Longrightarrow> lf_to_crlf u = lf_to_crlf v \<Longrightarrow> u = v"
  by (metis crlf_to_lf_lf_to_crlf)

lemma lf_to_crlf_not_LF_first: "\<not> prefix [LF] (lf_to_crlf u)"
  by (cases u) auto

lemma lf_to_crlf_peel:
  "CR \<notin> set u \<Longrightarrow> prefix (CR # LF # xs) (lf_to_crlf u) \<Longrightarrow>
   \<exists>u'. u = LF # u' \<and> prefix xs (lf_to_crlf u')"
  by (cases u) (auto split: if_splits)

lemma lf_to_crlf_peel2:
  assumes "CR \<notin> set u" and "prefix [CR, LF, CR, LF] (lf_to_crlf u)"
  shows "prefix [LF, LF] u"
proof -
  from lf_to_crlf_peel [OF assms] obtain u' where
    u': "u = LF # u'" "prefix [CR, LF] (lf_to_crlf u')" by blast
  with assms(1) have "CR \<notin> set u'" by simp
  from lf_to_crlf_peel [OF this u'(2)] obtain u'' where "u' = LF # u''" by blast
  with u'(1) show ?thesis by simp
qed

lemma re_Replace_lf_to_crlf:
  "CR \<notin> set u \<Longrightarrow> re_Replace (lf_to_crlf u) = lf_to_crlf (re_Replace u)"
proof (induction u rule: length_induct)
  case (1 u)
  show ?case
  proof (cases u rule: re_Replace_cases)
    case nil
    then show ?thesis by (simp add: re_Replace_Nil)
  next
    case (lf r)
    with 1 have "re_Replace (lf_to_crlf r) = lf_to_crlf (re_Replace r)" by simp
    with lf show ?thesis by (simp add: re_Replace_LF3_Cons re_Replace_CRLF3_Cons)
  next
    case (crlf r)
    with "1.prems" show ?thesis by simp
  next
    case (copy c t)
    from copy(1) "1.prems" have c: "c \<noteq> CR" and t: "CR \<notin> set t" by auto
    from 1 copy(1) t have IH: "re_Replace (lf_to_crlf t) = lf_to_crlf (re_Replace t)" by simp
    from copy have ru: "re_Replace u = c # re_Replace t"
      using re_Replace_copy [of c t] by simp
    show ?thesis
    proof (cases "c = LF")
      case False
      with c have "re_Replace (c # lf_to_crlf t) = c # re_Replace (lf_to_crlf t)"
        by (intro re_Replace_copy) auto
      with False IH ru copy(1) show ?thesis by simp
    next
      case True
      let ?L = "lf_to_crlf t"
      from copy True have nn: "\<not> prefix [LF, LF] t" by simp
      have "\<not> prefix [CR, LF, CR, LF, CR, LF] (CR # LF # ?L)"
        using lf_to_crlf_peel2 [OF t] nn by auto
      then have 1: "re_Replace (CR # LF # ?L) = CR # re_Replace (LF # ?L)"
        by (intro re_Replace_copy) auto
      have "\<not> prefix [LF, LF, LF] (LF # ?L)"
        using lf_to_crlf_not_LF_first [of t] by (auto simp: prefix_def)
      then have 2: "re_Replace (LF # ?L) = LF # re_Replace ?L"
        by (intro re_Replace_copy) auto
      from 1 2 IH ru True copy(1) show ?thesis by simp
    qed
  qed
qed

lemma CR_notin_re_Replace: "CR \<notin> set u \<Longrightarrow> CR \<notin> set (re_Replace u)"
  using set_re_Replace by blast

lemma collapse_lf_to_crlf:
  "CR \<notin> set u \<Longrightarrow> collapse (lf_to_crlf u) = lf_to_crlf (collapse u)"
proof (induction u rule: collapse.induct)
  case (1 u)
  have comm: "re_Replace (lf_to_crlf u) = lf_to_crlf (re_Replace u)"
    using "1.prems" by (rule re_Replace_lf_to_crlf)
  have cr: "CR \<notin> set (re_Replace u)" using "1.prems" by (rule CR_notin_re_Replace)
  show ?case
  proof (cases "re_Replace u = u")
    case True
    with comm have "re_Replace (lf_to_crlf u) = lf_to_crlf u" by simp
    then have "collapse (lf_to_crlf u) = lf_to_crlf u" by (subst collapse.simps) simp
    moreover from True have "collapse u = u" by (subst collapse.simps) simp
    ultimately show ?thesis by simp
  next
    case False
    with comm cr "1.prems" have "re_Replace (lf_to_crlf u) \<noteq> lf_to_crlf u"
      using lf_to_crlf_inj by metis
    then have "collapse (lf_to_crlf u) = collapse (re_Replace (lf_to_crlf u))"
      by (subst collapse.simps) simp
    also have "\<dots> = lf_to_crlf (collapse (re_Replace u))"
      using "1.IH" False cr comm by simp
    also from False have "collapse (re_Replace u) = collapse u"
      by (subst (2) collapse.simps) simp
    finally show ?thesis .
  qed
qed

lemma contains_crlf_Cons: "contains_crlf s \<Longrightarrow> contains_crlf (c # s)"
  by (cases s) auto

lemma contains_crlf_lf_to_crlf: "LF \<in> set u \<Longrightarrow> contains_crlf (lf_to_crlf u)"
  by (induction u) (auto simp: contains_crlf_Cons)

lemma normalize_lf_to_crlf:
  assumes "CR \<notin> set u" and "LF \<in> set u"
  shows "normalizeConsecutiveNewlines (lf_to_crlf u) = lf_to_crlf (normalizeConsecutiveNewlines u)"
proof -
  from assms(1) set_collapse [of u] have cr: "CR \<notin> set (collapse u)" by auto
  have "normalizeConsecutiveNewlines (lf_to_crlf u) =
        lf_to_crlf (TrimRight_LF (crlf_to_lf (collapse (lf_to_crlf u))) @ [LF])"
    using contains_crlf_lf_to_crlf [OF assms(2)]
    by (simp add: normalizeConsecutiveNewlines_def)
  also have "crlf_to_lf (collapse (lf_to_crlf u)) = collapse u"
    using assms(1) cr by (simp add: collapse_lf_to_crlf crlf_to_lf_lf_to_crlf)
  also have "TrimRight_LF (collapse u) @ [LF] = normalizeConsecutiveNewlines u"
    using normalize_LF(1) [OF assms(1)] by simp
  finally show ?thesis .
qed

lemma lf_to_crlf_no_triple:
  "CR \<notin> set v \<Longrightarrow> \<not> sublist [LF, LF, LF] v \<Longrightarrow>
   \<not> sublist [CR, LF, CR, LF, CR, LF] (lf_to_crlf v)"
proof (induction v)
  case Nil
  then show ?case by simp
next
  case (Cons c v)
  from Cons.prems have cr: "c \<noteq> CR" "CR \<notin> set v"
    and np: "\<not> prefix [LF, LF, LF] (c # v)" and ns: "\<not> sublist [LF, LF, LF] v"
    by (auto simp: sublist_Cons_right)
  from Cons.IH cr ns have IH: "\<not> sublist [CR, LF, CR, LF, CR, LF] (lf_to_crlf v)" by simp
  show ?case
  proof (cases "c = LF")
    case False
    with cr IH show ?thesis by (simp add: sublist_Cons_right)
  next
    case True
    with np have "\<not> prefix [LF, LF] v" by simp
    with lf_to_crlf_peel2 [OF cr(2)] have "\<not> prefix [CR, LF, CR, LF] (lf_to_crlf v)" by blast
    with True IH show ?thesis by (simp add: sublist_Cons_right)
  qed
qed

lemma crlf_only_Cons_other: "c \<noteq> CR \<Longrightarrow> c \<noteq> LF \<Longrightarrow> crlf_only (c # s) = crlf_only s"
  by (cases s) auto

lemma crlf_only_lf_to_crlf: "CR \<notin> set v \<Longrightarrow> crlf_only (lf_to_crlf v)"
  by (induction v) (auto simp: crlf_only_Cons_other)

lemma crlf_only_decode:
  "crlf_only s \<Longrightarrow> CR \<notin> set (crlf_to_lf s) \<and> lf_to_crlf (crlf_to_lf s) = s"
  by (induction s rule: crlf_only.induct) (auto split: if_splits)

lemma crlf_only_CR_LF:
  "crlf_only s \<Longrightarrow> CR \<in> set s \<Longrightarrow> LF \<in> set (crlf_to_lf s)"
  by (induction s rule: crlf_only.induct) (auto split: if_splits)

lemma lf_to_crlf_not_ending_CRLF:
  assumes "t \<noteq> [] \<longrightarrow> last t \<noteq> LF"
  shows "\<not> suffix [CR, LF] (lf_to_crlf t)"
proof (cases t rule: rev_cases)
  case Nil
  then show ?thesis by simp
next
  case (snoc t' c)
  with assms have "c \<noteq> LF" by simp
  with snoc show ?thesis by (auto simp: lf_to_crlf_append suffix_def)
qed

lemma normalize_ends:
  "suffix (if contains_crlf content then [CR, LF] else [LF])
     (normalizeConsecutiveNewlines content)
   \<and> \<not> suffix ((if contains_crlf content then [CR, LF] else [LF])
                @ (if contains_crlf content then [CR, LF] else [LF]))
        (normalizeConsecutiveNewlines content)"
proof -
  let ?t = "TrimRight_LF (crlf_to_lf (collapse content))"
  have last: "?t \<noteq> [] \<longrightarrow> last ?t \<noteq> LF" using TrimRight_LF_last by blast
  show ?thesis
  proof (cases "contains_crlf content")
    case False
    then have "normalizeConsecutiveNewlines content = ?t @ [LF]"
      by (simp add: normalizeConsecutiveNewlines_def)
    with False snoc_LF_single [OF last] show ?thesis by simp
  next
    case True
    then have eq: "normalizeConsecutiveNewlines content = lf_to_crlf ?t @ [CR, LF]"
      by (simp add: normalizeConsecutiveNewlines_def lf_to_crlf_append)
    have "\<not> suffix ([CR, LF] @ [CR, LF]) (lf_to_crlf ?t @ [CR, LF])"
      using lf_to_crlf_not_ending_CRLF [OF last] by (simp only: same_suffix_suffix) simp
    with True eq show ?thesis by (simp add: suffix_def)
  qed
qed

text \<open>
  C2, as far as the function goes. For every buffer the result ends with one line
  terminator and not with two; the terminator is \<open>\r\n\<close> when the buffer contains one
  and \<open>\n\<close> otherwise. For a buffer in one line-ending style, LF or CRLF, the result
  never has three line terminators in a row and keeps the style. Three terminators in a
  row are what two blank lines behind a line look like, so blank lines are capped at one
  everywhere but at the very start of the buffer.
\<close>

theorem normalize_line_terminators:
  "\<exists>nl. nl = (if contains_crlf content then [CR, LF] else [LF]) \<and>
     suffix nl (normalizeConsecutiveNewlines content) \<and>
     \<not> suffix (nl @ nl) (normalizeConsecutiveNewlines content) \<and>
     (CR \<notin> set content \<or> crlf_only content \<longrightarrow>
        \<not> sublist (nl @ nl @ nl) (normalizeConsecutiveNewlines content) \<and>
        (if contains_crlf content then crlf_only (normalizeConsecutiveNewlines content)
         else CR \<notin> set (normalizeConsecutiveNewlines content)))"
proof -
  have cap: "\<not> sublist ((if contains_crlf content then [CR, LF] else [LF])
                @ (if contains_crlf content then [CR, LF] else [LF])
                @ (if contains_crlf content then [CR, LF] else [LF]))
        (normalizeConsecutiveNewlines content) \<and>
        (if contains_crlf content then crlf_only (normalizeConsecutiveNewlines content)
         else CR \<notin> set (normalizeConsecutiveNewlines content))"
    if "CR \<notin> set content \<or> crlf_only content"
  proof (cases "CR \<in> set content")
    case False
    then have "\<not> contains_crlf content" using contains_crlf_CR by blast
    with normalize_LF(2,5) [OF False] show ?thesis by simp
  next
    case True
    with that have co: "crlf_only content" by simp
    let ?u = "crlf_to_lf content"
    from crlf_only_decode [OF co] have u: "CR \<notin> set ?u" and c: "lf_to_crlf ?u = content"
      by simp_all
    from crlf_only_CR_LF [OF co True] have lf: "LF \<in> set ?u" .
    have cc: "contains_crlf content"
      using contains_crlf_lf_to_crlf [OF lf] c by simp
    let ?v = "normalizeConsecutiveNewlines ?u"
    have out: "normalizeConsecutiveNewlines content = lf_to_crlf ?v"
      using normalize_lf_to_crlf [OF u lf] c by simp
    note v = normalize_LF(2-5) [OF u]
    have 1: "\<not> sublist [CR, LF, CR, LF, CR, LF] (lf_to_crlf ?v)"
      using v(4) v(1) by (rule lf_to_crlf_no_triple)
    have 3: "crlf_only (lf_to_crlf ?v)" using v(4) by (rule crlf_only_lf_to_crlf)
    from cc out 1 3 show ?thesis by simp
  qed
  with normalize_ends [of content] show ?thesis by blast
qed

theorem normalize_line_terminators_witness:
  "crlf_only (''a'' @ [CR, LF, CR, LF, CR, LF, CR, LF] @ ''b'' @ [CR, LF, CR, LF])
   \<and> contains_crlf (''a'' @ [CR, LF, CR, LF, CR, LF, CR, LF] @ ''b'' @ [CR, LF, CR, LF])
   \<and> \<not> sublist [CR, LF, CR, LF, CR, LF]
        (normalizeConsecutiveNewlines (''a'' @ [CR, LF, CR, LF, CR, LF, CR, LF] @ ''b'' @ [CR, LF, CR, LF]))
   \<and> suffix [CR, LF]
        (normalizeConsecutiveNewlines (''a'' @ [CR, LF, CR, LF, CR, LF, CR, LF] @ ''b'' @ [CR, LF, CR, LF]))
   \<and> \<not> suffix [CR, LF, CR, LF]
        (normalizeConsecutiveNewlines (''a'' @ [CR, LF, CR, LF, CR, LF, CR, LF] @ ''b'' @ [CR, LF, CR, LF]))
   \<and> CR \<notin> set (''a'' @ [LF, LF, LF, LF] @ ''b'' @ [LF, LF])
   \<and> \<not> sublist [LF, LF, LF] (normalizeConsecutiveNewlines (''a'' @ [LF, LF, LF, LF] @ ''b'' @ [LF, LF]))
   \<and> suffix [LF] (normalizeConsecutiveNewlines (''a'' @ [LF, LF, LF, LF] @ ''b'' @ [LF, LF]))
   \<and> \<not> suffix [LF, LF] (normalizeConsecutiveNewlines (''a'' @ [LF, LF, LF, LF] @ ''b'' @ [LF, LF]))
   \<and> suffix [CR, LF] (normalizeConsecutiveNewlines (''a'' @ [CR, LF, LF, CR, LF, LF] @ ''b'' @ [LF]))
   \<and> \<not> suffix [CR, LF, CR, LF]
        (normalizeConsecutiveNewlines (''a'' @ [CR, LF, LF, CR, LF, LF] @ ''b'' @ [LF]))"
proof -
  let ?c = "''a'' @ [CR, LF, CR, LF, CR, LF, CR, LF] @ ''b'' @ [CR, LF, CR, LF]"
  let ?l = "''a'' @ [LF, LF, LF, LF] @ ''b'' @ [LF, LF]"
  let ?m = "''a'' @ [CR, LF, LF, CR, LF, LF] @ ''b'' @ [LF]"
  have c: "crlf_only ?c" "contains_crlf ?c" by simp_all
  have l: "CR \<notin> set ?l" "\<not> contains_crlf ?l" by simp_all
  have m: "contains_crlf ?m" by simp
  from normalize_line_terminators [of ?c] normalize_line_terminators [of ?l]
    normalize_line_terminators [of ?m] c l m
  show ?thesis by simp
qed

text \<open>
  C2 as stated fails: two blank lines at the start of the buffer stay (there are only
  two terminators in a row), and with mixed endings \<open>\r\n\n\r\n\n\<close> is not touched by
  the replacer and comes out as four \<open>\r\n\<close>, that is three blank lines.
\<close>

theorem normalize_counterexample:
  "normalizeConsecutiveNewlines ([LF, LF] @ ''x'' @ [LF]) = [LF, LF] @ ''x'' @ [LF]
   \<and> prefix [LF, LF] (normalizeConsecutiveNewlines ([LF, LF] @ ''x'' @ [LF]))
   \<and> normalizeConsecutiveNewlines (''a'' @ [CR, LF, LF, CR, LF, LF] @ ''b'' @ [LF])
       = ''a'' @ [CR, LF, CR, LF, CR, LF, CR, LF] @ ''b'' @ [CR, LF]
   \<and> sublist [CR, LF, CR, LF, CR, LF]
        (normalizeConsecutiveNewlines (''a'' @ [CR, LF, LF, CR, LF, LF] @ ''b'' @ [LF]))"
proof -
  have 1: "normalizeConsecutiveNewlines ([LF, LF] @ ''x'' @ [LF]) = [LF, LF] @ ''x'' @ [LF]"
    by code_simp
  have 2: "normalizeConsecutiveNewlines (''a'' @ [CR, LF, LF, CR, LF, LF] @ ''b'' @ [LF])
       = ''a'' @ [CR, LF, CR, LF, CR, LF, CR, LF] @ ''b'' @ [CR, LF]"
    by code_simp
  show ?thesis unfolding 1 2 by (simp add: sublist_Cons_right)
qed

section \<open>Errors and counters of \<open>processFile\<close>\<close>

text \<open>
  C6: with no range located the splicing step hands the content on as it is.
\<close>

theorem splice_no_ranges:
  "splice_ranges content [] = Some content \<and> resultContent content [] = Some content"
  by (simp add: splice_ranges_def resultContent_def)

text \<open>
  C7: when the parser reports errors, \<open>processFile\<close> returns the parse error with the
  file's path and the diagnostics in it, and neither the statistics nor the disk change.
\<close>

theorem processFile_parse_error:
  assumes "d filePath = Some content"
    and "ParseConfig E content filePath = Diags msg"
  shows "processFile E filePath stats d = Some (Some (ParseError filePath msg), stats, d)
         \<and> error_text (ParseError filePath msg) = ''error parsing '' @ filePath @ '': '' @ msg"
  using assms by (simp add: processFile_def)

theorem processFile_parse_error_witness:
  "[''invalid.tf'' \<mapsto> ''this is not valid HCL''] ''invalid.tf'' = Some ''this is not valid HCL''
   \<and> ParseConfig (fixed_externals (Diags ''Invalid block definition'') (\<lambda>b. b) False)
        ''this is not valid HCL'' ''invalid.tf'' = Diags ''Invalid block definition''
   \<and> processFile (fixed_externals (Diags ''Invalid block definition'') (\<lambda>b. b) False)
        ''invalid.tf'' stats0 [''invalid.tf'' \<mapsto> ''this is not valid HCL'']
       = Some (Some (ParseError ''invalid.tf'' ''Invalid block definition''), stats0,
               [''invalid.tf'' \<mapsto> ''this is not valid HCL''])"
  using processFile_parse_error [of "[''invalid.tf'' \<mapsto> ''this is not valid HCL'']"
      "''invalid.tf''" "''this is not valid HCL''"
      "fixed_externals (Diags ''Invalid block definition'') (\<lambda>b. b) False"
      "''Invalid block definition''" stats0]
  by (simp add: fixed_externals_def)

text \<open>
  A write that fails in a run that is not a dry run comes back as a write error, the
  counters raised.
\<close>

lemma processFile_write_fails:
  assumes "d filePath = Some content"
    and "ParseConfig E content filePath = SyntaxBody blocks"
    and "\<not> DryRun stats"
    and "resultContent content (removedRanges blocks) = Some result"
    and "formatted = (if removedRanges blocks \<noteq> [] \<and> NormalizeWhitespace stats
                      then normalizeConsecutiveNewlines (Format E result)
                      else Format E result)"
    and "removedRanges blocks \<noteq> [] \<or> formatted \<noteq> content"
    and "WriteFile E filePath formatted d = (Some msg, d')"
  shows "processFile E filePath stats d =
    Some (Some (WriteError filePath msg),
          stats\<lparr>FilesProcessed := FilesProcessed stats + 1,
                FilesModified := FilesModified stats + 1,
                RemovedBlocksRemoved :=
                  RemovedBlocksRemoved stats + of_nat (length (removedRanges blocks))\<rparr>,
          d')"
proof (cases "removedRanges blocks = []")
  case True
  with assms show ?thesis by (simp add: processFile_def Let_def)
next
  case False
  with assms show ?thesis by (simp add: processFile_def Let_def)
qed

lemma resultContent_indented_tf:
  "resultContent indented_tf [\<lparr>range_start = 4, range_end = 14\<rparr>]
     = Some (''a'' @ [LF, LF] @ ''b'' @ [LF])"
  by code_simp

text \<open>
  C9: when \<open>processFile\<close> returns a write error, the run was not a dry run and the three
  counters have been raised as for a successful write: one file processed, one file
  modified, and one block removed per located range.
\<close>

theorem processFile_write_error_counts:
  assumes "processFile E filePath stats d = Some (Some (WriteError p msg), stats', d')"
    and "d filePath = Some content"
    and "ParseConfig E content filePath = SyntaxBody blocks"
  shows "\<not> DryRun stats \<and>
         stats' = stats\<lparr>FilesProcessed := FilesProcessed stats + 1,
                        FilesModified := FilesModified stats + 1,
                        RemovedBlocksRemoved :=
                          RemovedBlocksRemoved stats + of_nat (length (removedRanges blocks))\<rparr>"
  using assms
  by (auto simp: processFile_def Let_def
           split: option.splits parse_result.splits if_splits prod.splits)

theorem processFile_write_error_counts_witness:
  "processFile
     (fixed_externals (SyntaxBody [\<lparr>Type = ''removed'', Start_Byte = 4, End_Byte = 14\<rparr>])
        (\<lambda>b. b) True)
     ''main.tf'' stats0 [''main.tf'' \<mapsto> indented_tf]
   = Some (Some (WriteError ''main.tf'' ''permission denied''),
           stats0\<lparr>FilesProcessed := 1, FilesModified := 1, RemovedBlocksRemoved := 1\<rparr>,
           [''main.tf'' \<mapsto> indented_tf])
   \<and> \<not> DryRun stats0"
proof -
  let ?E = "fixed_externals
     (SyntaxBody [\<lparr>Type = ''removed'', Start_Byte = 4, End_Byte = 14\<rparr>]) (\<lambda>b. b) True"
  let ?d = "[''main.tf'' \<mapsto> indented_tf]"
  obtain r where r: "processFile ?E ''main.tf'' stats0 ?d
      = Some (Some (WriteError ''main.tf'' ''permission denied''), r)"
    using resultContent_indented_tf
    by (simp add: processFile_def fixed_externals_def stats0_def)
  obtain s' d' where sd: "r = (s', d')" by (cases r)
  have d': "d' = ?d"
    using r sd resultContent_indented_tf
    by (simp add: processFile_def fixed_externals_def stats0_def)
  from processFile_write_error_counts [of ?E "''main.tf''" stats0 ?d "''main.tf''"
      "''permission denied''" s' d' indented_tf
      "[\<lparr>Type = ''removed'', Start_Byte = 4, End_Byte = 14\<rparr>]"] r sd
  have "\<not> DryRun stats0
      \<and> s' = stats0\<lparr>FilesProcessed := 1, FilesModified := 1, RemovedBlocksRemoved := 1\<rparr>"
    by (simp add: fixed_externals_def stats0_def)
  with r sd d' show ?thesis by simp
qed

text \<open>
  C10: when \<open>processFile\<close> returns a read error or a parse error, the statistics are
  the ones it was called with.
\<close>

theorem processFile_early_error_keeps_stats:
  assumes "processFile E filePath stats d = Some (Some err, stats', d')"
    and "(\<exists>p msg. err = ReadError p msg) \<or> (\<exists>p msg. err = ParseError p msg)"
  shows "stats' = stats"
  using assms
  by (auto simp: processFile_def Let_def
           split: option.splits parse_result.splits if_splits prod.splits)

theorem processFile_early_error_keeps_stats_witness:
  "(\<exists>s' d'. processFile (fixed_externals (Diags ''Invalid block definition'') (\<lambda>b. b) False)
        ''invalid.tf'' (stats0\<lparr>FilesProcessed := 3\<rparr>)
        [''invalid.tf'' \<mapsto> ''this is not valid HCL'']
      = Some (Some (ParseError ''invalid.tf'' ''Invalid block definition''), s', d')
      \<and> s' = stats0\<lparr>FilesProcessed := 3\<rparr>)
   \<and> (\<exists>s' d'. processFile (fixed_externals (SyntaxBody []) (\<lambda>b. b) False)
        ''/non-existent-file.tf'' (stats0\<lparr>FilesProcessed := 3\<rparr>) Map.empty
      = Some (Some (ReadError ''/non-existent-file.tf''
                      ''open /non-existent-file.tf: no such file or directory''), s', d')
      \<and> s' = stats0\<lparr>FilesProcessed := 3\<rparr>)"
proof -
  let ?s = "stats0\<lparr>FilesProcessed := 3\<rparr>"
  obtain s1 d1 where 1:
    "processFile (fixed_externals (Diags ''Invalid block definition'') (\<lambda>b. b) False)
        ''invalid.tf'' ?s [''invalid.tf'' \<mapsto> ''this is not valid HCL'']
     = Some (Some (ParseError ''invalid.tf'' ''Invalid block definition''), s1, d1)"
    by (simp add: processFile_def fixed_externals_def)
  obtain s2 d2 where 2:
    "processFile (fixed_externals (SyntaxBody []) (\<lambda>b. b) False)
        ''/non-existent-file.tf'' ?s Map.empty
     = Some (Some (ReadError ''/non-existent-file.tf''
                     ''open /non-existent-file.tf: no such file or directory''), s2, d2)"
    by (simp add: processFile_def fixed_externals_def)
  have "s1 = ?s" by (rule processFile_early_error_keeps_stats [OF 1]) blast
  moreover have "s2 = ?s" by (rule processFile_early_error_keeps_stats [OF 2]) blast
  ultimately show ?thesis using 1 2 by blast
qed

text \<open>What a dry run returns for a file that is read and parsed.\<close>

lemma processFile_dry_run_counters:
  assumes "d filePath = Some content"
    and "ParseConfig E content filePath = SyntaxBody blocks"
    and "DryRun stats"
  shows "processFile E filePath stats d =
    Some (None,
          (if removedRanges blocks = []
           then stats\<lparr>FilesProcessed := FilesProcessed stats + 1\<rparr>
           else stats\<lparr>FilesProcessed := FilesProcessed stats + 1,
                       FilesModified := FilesModified stats + 1,
                       RemovedBlocksRemoved :=
                         RemovedBlocksRemoved stats + of_nat (length (removedRanges blocks))\<rparr>),
          d)"
  using assms by (simp add: processFile_def Let_def)

text \<open>A dry run returns the disk it was given.\<close>

lemma processFile_dry_run_keeps_disk:
  "DryRun stats \<Longrightarrow> processFile E filePath stats d = Some (err, stats', d') \<Longrightarrow> d' = d"
  by (auto simp: processFile_def Let_def
           split: option.splits parse_result.splits if_splits prod.splits)


text \<open>
  C4: the same file, with spacing the formatter would change and no \<open>removed\<close> block,
  run once as a dry run and once for real. The dry run leaves \<open>FilesModified\<close> at 0;
  the real run counts the file as modified and rewrites it.
\<close>

theorem processFile_dry_run_formatting_only:
  "processFile (fixed_externals (SyntaxBody []) spacing_formatter False)
        ''unformatted.tf'' (stats0\<lparr>DryRun := True\<rparr>) [''unformatted.tf'' \<mapsto> ''a=1'' @ [LF]]
      = Some (None, stats0\<lparr>DryRun := True, FilesProcessed := 1, FilesModified := 0\<rparr>,
              [''unformatted.tf'' \<mapsto> ''a=1'' @ [LF]])
   \<and> processFile (fixed_externals (SyntaxBody []) spacing_formatter False)
        ''unformatted.tf'' stats0 [''unformatted.tf'' \<mapsto> ''a=1'' @ [LF]]
      = Some (None, stats0\<lparr>FilesProcessed := 1, FilesModified := 1\<rparr>,
              [''unformatted.tf'' \<mapsto> ''a = 1'' @ [LF]])"
  by (simp add: processFile_def fixed_externals_def stats0_def spacing_formatter_def resultContent_def)

section \<open>Comments outside the located ranges\<close>

lemma in_set_drop_take:
  "x \<in> set (drop e (take s xs)) \<longleftrightarrow> (\<exists>k. e \<le> k \<and> k < s \<and> k < length xs \<and> xs ! k = x)"
proof
  assume "x \<in> set (drop e (take s xs))"
  then obtain i where i: "i < length (drop e (take s xs))" "drop e (take s xs) ! i = x"
    by (auto simp: in_set_conv_nth)
  then have "e + i < s" "e + i < length xs" by auto
  moreover from i this have "xs ! (e + i) = x" by simp
  ultimately show "\<exists>k. e \<le> k \<and> k < s \<and> k < length xs \<and> xs ! k = x"
    by (intro exI [of _ "e + i"]) simp
next
  assume "\<exists>k. e \<le> k \<and> k < s \<and> k < length xs \<and> xs ! k = x"
  then obtain k where k: "e \<le> k" "k < s" "k < length xs" "xs ! k = x" by blast
  then have "k - e < length (drop e (take s xs))" by auto
  moreover from k have "drop e (take s xs) ! (k - e) = x" by simp
  ultimately show "x \<in> set (drop e (take s xs))" by (metis nth_mem)
qed

lemma separated_snoc:
  "separated content (xs @ [r]) \<Longrightarrow>
   separated content xs \<and> range_start r \<le> range_end r \<and> range_end r \<le> length content \<and>
   (xs \<noteq> [] \<longrightarrow> LF \<in> set (drop (range_end (last xs)) (take (range_start r) content)))"
proof (induction content xs rule: separated.induct)
  case (1 content)
  then show ?case by simp
next
  case (2 content x)
  then have *: "range_start x \<le> range_end x"
    "LF \<in> set (drop (range_end x) (take (range_start r) content))"
    "range_start r \<le> range_end r" "range_end r \<le> length content" by simp_all
  from *(2) obtain k where "range_end x \<le> k" "k < range_start r" "k < length content"
    by (auto simp: in_set_drop_take)
  with * show ?case by simp
next
  case (3 content x x' xs)
  then show ?case by simp
qed

lemma extend_start_stops:
  "extend_start result s = Some s' \<Longrightarrow> j < s \<Longrightarrow> result ! j \<noteq> SP \<Longrightarrow> result ! j \<noteq> TAB \<Longrightarrow>
   j < s'"
proof (induction s)
  case 0
  then show ?case by simp
next
  case (Suc n)
  show ?case
  proof (cases "result ! n = SP \<or> result ! n = TAB")
    case True
    with Suc.prems have "extend_start result n = Some s'" and "j < n"
      by (auto split: if_splits simp: less_Suc_eq)
    with Suc show ?thesis by simp
  next
    case False
    with Suc.prems show ?thesis by (auto split: if_splits)
  qed
qed

lemma extend_start_le: "extend_start result s = Some s' \<Longrightarrow> s' \<le> s \<and> s \<le> length result"
  by (induction s) (auto split: if_splits)

lemma extend_end_stops_at:
  "e \<le> j \<Longrightarrow> j < length result \<Longrightarrow> result ! j \<noteq> CR \<Longrightarrow> result ! j \<noteq> LF \<Longrightarrow>
   extend_end result e \<le> j"
proof (induction result e rule: extend_end.induct)
  case (1 result e)
  consider (stop) "e = length result \<or> (result ! e \<noteq> CR \<and> result ! e \<noteq> LF)"
    | (lf) "e < length result" "result ! e = LF"
    | (cr) "e < length result" "result ! e = CR"
    using "1.prems" by force
  then show ?case
  proof cases
    case stop
    with "1.prems" show ?thesis by (simp add: extend_end_stop)
  next
    case lf
    with "1.prems" have "e \<noteq> j" by auto
    with lf "1.prems" show ?thesis by (simp add: extend_end_LF)
  next
    case cr
    with "1.prems" have "e \<noteq> j" by auto
    with "1.prems" have "Suc e \<le> j" by simp
    with cr "1.IH" "1.prems" show ?thesis by (simp add: extend_end_CR)
  qed
qed

lemma extend_end_stops_after_LF:
  "e \<le> k \<Longrightarrow> k < length result \<Longrightarrow> result ! k = LF \<Longrightarrow> extend_end result e \<le> Suc k"
proof (induction result e rule: extend_end.induct)
  case (1 result e)
  consider (stop) "e = length result \<or> (result ! e \<noteq> CR \<and> result ! e \<noteq> LF)"
    | (lf) "e < length result" "result ! e = LF"
    | (cr) "e < length result" "result ! e = CR"
    using "1.prems" by force
  then show ?case
  proof cases
    case stop
    with "1.prems" show ?thesis by (simp add: extend_end_stop)
  next
    case lf
    with "1.prems" show ?thesis by (simp add: extend_end_LF)
  next
    case cr
    with "1.prems" have "e \<noteq> k" by auto
    with "1.prems" have "Suc e \<le> k" by simp
    with cr "1.IH" "1.prems" show ?thesis by (simp add: extend_end_CR)
  qed
qed

lemma remove_ranges_keeps_comment:
  assumes cmt: "cmt \<noteq> []" "hd cmt \<noteq> CR" "hd cmt \<noteq> LF"
    and B: "B \<noteq> []" "hd B \<noteq> SP" "hd B \<noteq> TAB"
    and content: "content = A @ cmt @ B"
  shows "separated content rs \<Longrightarrow>
     \<forall>r\<in>set rs. range_end r \<le> length A \<or> length A + length cmt < range_start r \<Longrightarrow>
     b \<le> length content \<Longrightarrow> b \<le> length result \<Longrightarrow> take b result = take b content \<Longrightarrow>
     rs \<noteq> [] \<longrightarrow> range_end (last rs) \<le> b \<and>
       (b = length result \<or> LF \<in> set (drop (range_end (last rs)) (take b content))) \<Longrightarrow>
     \<exists>A' B'. result = A' @ cmt @ B' \<and>
       ((A' = A \<and> length A + length cmt < b) \<or> b \<le> length A') \<Longrightarrow>
     \<exists>out. remove_ranges result (rev rs) = Some out \<and> sublist cmt out"
proof (induction rs arbitrary: result b rule: rev_induct)
  case Nil
  then obtain A' B' where "result = A' @ cmt @ B'" by blast
  then show ?case by auto
next
  case (snoc r xs)
  let ?s = "range_start r" and ?e = "range_end r"
  let ?c1 = "length A + length cmt"
  from separated_snoc [OF snoc.prems(1)]
  have sep: "separated content xs" and se: "?s \<le> ?e" "?e \<le> length content"
    and gap: "xs \<noteq> [] \<longrightarrow> LF \<in> set (drop (range_end (last xs)) (take ?s content))"
    by simp_all
  from snoc.prems(6) have eb: "?e \<le> b"
    and bar: "b = length result \<or> LF \<in> set (drop ?e (take b content))" by simp_all
  from snoc.prems(7) obtain A' B' where res: "result = A' @ cmt @ B'"
    and pos: "(A' = A \<and> ?c1 < b) \<or> b \<le> length A'" by blast
  have same: "result ! k = content ! k" if "k < b" for k
    using snoc.prems(5) that by (metis nth_take)
  from se eb snoc.prems(4) have sl: "?s \<le> length result" and el: "?e \<le> length result"
    by simp_all
  from sl obtain s' where s': "extend_start result ?s = Some s'" "s' \<le> ?s"
    using extend_start_Some by blast
  let ?e' = "extend_end result ?e"
  from el have e': "?e \<le> ?e'" "?e' \<le> length result"
    using extend_end_bounds by blast+
  let ?result' = "take s' result @ drop ?e' result"
  have rr: "remove_range result r = Some ?result'"
    using s'(1) el by (simp add: remove_range_def)
  have s'b: "s' \<le> b" using s'(2) se(1) eb by simp
  have inv: "\<exists>A'' B''. ?result' = A'' @ cmt @ B'' \<and>
       ((A'' = A \<and> ?c1 < s') \<or> s' \<le> length A'')"
  proof -
    consider (after) "A' = A" "?c1 < b" "?c1 < ?s" | (before) "?e' \<le> length A'"
    proof (cases "A' = A \<and> ?c1 < b")
      case True
      show ?thesis
      proof (cases "?c1 < ?s")
        case True
        with \<open>A' = A \<and> ?c1 < b\<close> show ?thesis using after by blast
      next
        case False
        with snoc.prems(2) have "?e \<le> length A" by simp
        moreover have "length A < length result" using res True cmt(1) by simp
        moreover have "result ! length A = hd cmt"
          using res True cmt(1) by (simp add: nth_append hd_conv_nth)
        ultimately have "?e' \<le> length A"
          using cmt(2,3) by (intro extend_end_stops_at) simp_all
        with True show ?thesis using before by simp
      qed
    next
      case False
      with pos have bA: "b \<le> length A'" by blast
      with res cmt(1) have "b \<noteq> length result" by auto
      with bar obtain k where k: "?e \<le> k" "k < b" "content ! k = LF"
        by (auto simp: in_set_drop_take)
      with same [of k] snoc.prems(4) have "k < length result" "result ! k = LF" by simp_all
      with k(1) have "?e' \<le> Suc k" by (intro extend_end_stops_after_LF)
      with k(2) bA show ?thesis using before by simp
    qed
    then show ?thesis
    proof cases
      case after
      have "content ! ?c1 = hd B"
        using content B(1) by (simp add: nth_append hd_conv_nth)
      with same [OF after(2)] have "result ! ?c1 = hd B" by simp
      with extend_start_stops [OF s'(1) after(3)] B(2,3) have c1: "?c1 < s'" by simp
      with res after(1) have "take s' result = A @ cmt @ take (s' - ?c1) B'" by simp
      then have "?result' = A @ cmt @ (take (s' - ?c1) B' @ drop ?e' result)" by simp
      with c1 show ?thesis by blast
    next
      case before
      with s'(2) se(1) e'(1) have sA: "s' \<le> length A'" by simp
      with res before have "?result' = (take s' A' @ drop ?e' A') @ cmt @ B'" by simp
      moreover from sA have "s' \<le> length (take s' A' @ drop ?e' A')" by simp
      ultimately show ?thesis by blast
    qed
  qed
  have p2: "\<forall>r\<in>set xs. range_end r \<le> length A \<or> ?c1 < range_start r"
    using snoc.prems(2) by simp
  have p3: "s' \<le> length content" using s'b snoc.prems(3) by simp
  have p4: "s' \<le> length ?result'" using s'(2) sl by simp
  have "take s' ?result' = take s' result" using s'(2) sl by simp
  also have "\<dots> = take s' (take b result)" using s'b by (simp add: min_def)
  also have "\<dots> = take s' content" using s'b snoc.prems(5) by (simp add: min_def)
  finally have p5: "take s' ?result' = take s' content" .
  have p6: "xs \<noteq> [] \<longrightarrow> range_end (last xs) \<le> s' \<and>
       (s' = length ?result' \<or> LF \<in> set (drop (range_end (last xs)) (take s' content)))"
  proof
    assume "xs \<noteq> []"
    with gap obtain k where k: "range_end (last xs) \<le> k" "k < ?s" "k < length content"
        "content ! k = LF"
      by (auto simp: in_set_drop_take)
    from k(2) se(1) eb have "k < b" by simp
    with same [of k] k(4) have "result ! k = LF" by simp
    with extend_start_stops [OF s'(1) k(2)] have "k < s'" by simp
    with k show "range_end (last xs) \<le> s' \<and>
       (s' = length ?result' \<or> LF \<in> set (drop (range_end (last xs)) (take s' content)))"
      by (auto simp: in_set_drop_take)
  qed
  from snoc.IH [OF sep p2 p3 p4 p5 p6 inv]
  obtain out where "remove_ranges ?result' (rev xs) = Some out" "sublist cmt out" by blast
  with rr show ?case by simp
qed

lemma separated_last:
  "separated content rs \<Longrightarrow> rs \<noteq> [] \<Longrightarrow> range_end (last rs) \<le> length content"
  by (induction content rs rule: separated.induct) auto

lemma splice_keeps_comment:
  assumes "cmt \<noteq> []" and "hd cmt \<noteq> CR" and "hd cmt \<noteq> LF"
    and "B \<noteq> []" and "hd B \<noteq> SP" and "hd B \<noteq> TAB"
    and "content = A @ cmt @ B"
    and "separated content rs"
    and "\<forall>r\<in>set rs. range_end r \<le> length A \<or> length A + length cmt < range_start r"
  shows "\<exists>out. splice_ranges content rs = Some out \<and> sublist cmt out"
  unfolding splice_ranges_def
proof (rule remove_ranges_keeps_comment [OF assms(1-9), of "length content"])
  show "rs \<noteq> [] \<longrightarrow> range_end (last rs) \<le> length content \<and>
    (length content = length content \<or>
     LF \<in> set (drop (range_end (last rs)) (take (length content) content)))"
    using separated_last [OF assms(8)] by simp
  show "\<exists>A' B'. content = A' @ cmt @ B' \<and>
    (A' = A \<and> length A + length cmt < length content \<or> length content \<le> length A')"
    using assms(4,7) by auto
qed simp_all

lemma prefix_append_other:
  assumes "prefix P (X @ Z)" and "Z \<noteq> []" and "hd Z \<notin> set P"
  shows "prefix P X"
proof -
  from assms(1) consider "prefix P X" | us where "P = X @ us" "prefix us Z"
    by (auto simp: prefix_append)
  then show ?thesis
  proof cases
    case 1
    then show ?thesis .
  next
    case 2
    show ?thesis
    proof (cases us)
      case Nil
      with 2 show ?thesis by simp
    next
      case (Cons u us')
      with 2(2) assms(2) have "hd Z = u" by (cases Z) auto
      with 2(1) Cons assms(3) show ?thesis by simp
    qed
  qed
qed

lemma re_Replace_segment:
  "CR \<notin> set cmt \<Longrightarrow> LF \<notin> set cmt \<Longrightarrow> re_Replace (cmt @ Y) = cmt @ re_Replace Y"
proof (induction cmt)
  case Nil
  then show ?case by simp
next
  case (Cons c cmt)
  then have "re_Replace (c # (cmt @ Y)) = c # re_Replace (cmt @ Y)"
    by (intro re_Replace_copy) auto
  with Cons show ?case by simp
qed

lemma re_Replace_before:
  assumes "Z \<noteq> []" and "hd Z \<noteq> CR" and "hd Z \<noteq> LF"
  shows "\<exists>X'. re_Replace (X @ Z) = X' @ re_Replace Z"
proof (induction X rule: length_induct)
  case (1 X)
  consider (lf) "prefix [LF, LF, LF] X" | (crlf) "prefix [CR, LF, CR, LF, CR, LF] X"
    | (other) "\<not> prefix [LF, LF, LF] X" "\<not> prefix [CR, LF, CR, LF, CR, LF] X"
    by blast
  then show ?case
  proof cases
    case lf
    then obtain r where r: "X = LF # LF # LF # r" by (auto simp: prefix_def)
    then have "length r < length X" by simp
    with 1 obtain X' where "re_Replace (r @ Z) = X' @ re_Replace Z" by blast
    with r show ?thesis by (simp add: re_Replace_LF3_Cons)
  next
    case crlf
    then obtain r where r: "X = CR # LF # CR # LF # CR # LF # r" by (auto simp: prefix_def)
    then have "length r < length X" by simp
    with 1 obtain X' where "re_Replace (r @ Z) = X' @ re_Replace Z" by blast
    with r show ?thesis by (simp add: re_Replace_CRLF3_Cons)
  next
    case other
    show ?thesis
    proof (cases X)
      case Nil
      then show ?thesis by simp
    next
      case (Cons c t)
      have "\<not> prefix [LF, LF, LF] (X @ Z)"
        using other(1) prefix_append_other [of "[LF, LF, LF]" X Z] assms by auto
      moreover have "\<not> prefix [CR, LF, CR, LF, CR, LF] (X @ Z)"
        using other(2) prefix_append_other [of "[CR, LF, CR, LF, CR, LF]" X Z] assms by auto
      ultimately have "re_Replace (c # (t @ Z)) = c # re_Replace (t @ Z)"
        using Cons by (intro re_Replace_copy) simp_all
      moreover from Cons have "length t < length X" by simp
      with 1 obtain X' where "re_Replace (t @ Z) = X' @ re_Replace Z" by blast
      ultimately show ?thesis using Cons by simp
    qed
  qed
qed

lemma sublist_re_Replace:
  assumes "CR \<notin> set cmt" and "LF \<notin> set cmt" and "sublist cmt s"
  shows "sublist cmt (re_Replace s)"
proof (cases "cmt = []")
  case True
  then show ?thesis by simp
next
  case False
  from assms(3) obtain X Y where s: "s = X @ cmt @ Y" by (auto simp: sublist_def)
  from False assms(1,2) have "cmt @ Y \<noteq> []" "hd (cmt @ Y) \<noteq> CR" "hd (cmt @ Y) \<noteq> LF"
    by (cases cmt; auto)+
  from re_Replace_before [OF this] obtain X' where
    "re_Replace (X @ cmt @ Y) = X' @ re_Replace (cmt @ Y)" by blast
  with s assms(1,2) show ?thesis by (simp add: re_Replace_segment)
qed

lemma sublist_collapse:
  "CR \<notin> set cmt \<Longrightarrow> LF \<notin> set cmt \<Longrightarrow> sublist cmt s \<Longrightarrow> sublist cmt (collapse s)"
proof (induction s rule: collapse.induct)
  case (1 s)
  show ?case
  proof (cases "re_Replace s = s")
    case True
    with "1.prems" show ?thesis by (subst collapse.simps) simp
  next
    case False
    with 1 sublist_re_Replace [of cmt s] show ?thesis by (subst collapse.simps) simp
  qed
qed

lemma crlf_to_lf_before:
  "Z \<noteq> [] \<Longrightarrow> hd Z \<noteq> LF \<Longrightarrow> crlf_to_lf (X @ Z) = crlf_to_lf X @ crlf_to_lf Z"
proof (induction X rule: crlf_to_lf.induct)
  case 1
  then show ?case by simp
next
  case (2 c)
  then show ?case by (cases Z) auto
next
  case (3 c d s)
  then show ?case by auto
qed

lemma crlf_to_lf_segment: "CR \<notin> set cmt \<Longrightarrow> crlf_to_lf (cmt @ Y) = cmt @ crlf_to_lf Y"
  by (induction cmt) (auto simp: crlf_to_lf_Cons_other)

lemma sublist_crlf_to_lf:
  assumes "CR \<notin> set cmt" and "LF \<notin> set cmt" and "sublist cmt s"
  shows "sublist cmt (crlf_to_lf s)"
proof (cases "cmt = []")
  case True
  then show ?thesis by simp
next
  case False
  from assms(3) obtain X Y where s: "s = X @ cmt @ Y" by (auto simp: sublist_def)
  from False assms(2) have "cmt @ Y \<noteq> []" "hd (cmt @ Y) \<noteq> LF" by (cases cmt; auto)+
  then have "crlf_to_lf (X @ cmt @ Y) = crlf_to_lf X @ crlf_to_lf (cmt @ Y)"
    by (rule crlf_to_lf_before)
  with s assms(1) show ?thesis by (simp add: crlf_to_lf_segment)
qed

lemma sublist_TrimRight_LF:
  assumes "cmt \<noteq> []" and "LF \<notin> set cmt" and "sublist cmt s"
  shows "sublist cmt (TrimRight_LF s)"
proof -
  obtain n where n: "s = TrimRight_LF s @ replicate n LF" using TrimRight_LF_decomp by blast
  let ?t = "TrimRight_LF s"
  from assms(3) n have "sublist cmt (?t @ replicate n LF)" by simp
  then consider "sublist cmt ?t" | "sublist cmt (replicate n LF)"
    | x1 x2 where "cmt = x1 @ x2" "suffix x1 ?t" "prefix x2 (replicate n LF)"
    by (auto simp: sublist_append)
  then show ?thesis
  proof cases
    case 1
    then show ?thesis .
  next
    case 2
    then have "set cmt \<subseteq> set (replicate n LF)" by (auto simp: sublist_def)
    with assms(1,2) show ?thesis by (cases cmt) auto
  next
    case 3
    from 3(3) have "set x2 \<subseteq> set (replicate n LF)" by (auto simp: prefix_def)
    with 3(1) assms(2) have "x2 = []" by (cases x2) auto
    with 3(1,2) show ?thesis by simp
  qed
qed

lemma lf_to_crlf_segment: "LF \<notin> set cmt \<Longrightarrow> lf_to_crlf cmt = cmt"
  by (induction cmt) auto

lemma sublist_lf_to_crlf:
  assumes "LF \<notin> set cmt" and "sublist cmt s"
  shows "sublist cmt (lf_to_crlf s)"
proof -
  from assms(2) obtain X Y where "s = X @ cmt @ Y" by (auto simp: sublist_def)
  with assms(1) show ?thesis by (simp add: lf_to_crlf_append lf_to_crlf_segment)
qed

lemma sublist_normalize:
  assumes "cmt \<noteq> []" and "CR \<notin> set cmt" and "LF \<notin> set cmt" and "sublist cmt s"
  shows "sublist cmt (normalizeConsecutiveNewlines s)"
proof -
  have "sublist cmt (collapse s)" using assms(2-4) by (rule sublist_collapse)
  with assms(2,3) have "sublist cmt (crlf_to_lf (collapse s))" by (rule sublist_crlf_to_lf)
  with assms(1,3) have "sublist cmt (TrimRight_LF (crlf_to_lf (collapse s)))"
    by (rule sublist_TrimRight_LF)
  then have 1: "sublist cmt (TrimRight_LF (crlf_to_lf (collapse s)) @ [LF])"
    by (simp add: sublist_append)
  with assms(3) have "sublist cmt (lf_to_crlf (TrimRight_LF (crlf_to_lf (collapse s)) @ [LF]))"
    by (rule sublist_lf_to_crlf)
  with 1 show ?thesis by (simp add: normalizeConsecutiveNewlines_def Let_def)
qed

text \<open>
  For separated ranges the splicing loop never reads or slices out of range, so
  \<open>processFile\<close> returns.
\<close>

lemma remove_ranges_separated:
  "separated content rs \<Longrightarrow>
     b \<le> length content \<Longrightarrow> b \<le> length result \<Longrightarrow> take b result = take b content \<Longrightarrow>
     rs \<noteq> [] \<longrightarrow> range_end (last rs) \<le> b \<Longrightarrow>
     \<exists>out. remove_ranges result (rev rs) = Some out"
proof (induction rs arbitrary: result b rule: rev_induct)
  case Nil
  then show ?case by simp
next
  case (snoc r xs)
  let ?s = "range_start r" and ?e = "range_end r"
  from separated_snoc [OF snoc.prems(1)]
  have sep: "separated content xs" and se: "?s \<le> ?e"
    and gap: "xs \<noteq> [] \<longrightarrow> LF \<in> set (drop (range_end (last xs)) (take ?s content))"
    by simp_all
  from snoc.prems(5) have eb: "?e \<le> b" by simp
  from se eb snoc.prems(3) have sl: "?s \<le> length result" and el: "?e \<le> length result"
    by simp_all
  from sl obtain s' where s': "extend_start result ?s = Some s'" "s' \<le> ?s"
    using extend_start_Some by blast
  let ?result' = "take s' result @ drop (extend_end result ?e) result"
  have rr: "remove_range result r = Some ?result'"
    using s'(1) el by (simp add: remove_range_def)
  have s'b: "s' \<le> b" using s'(2) se eb by simp
  have p2: "s' \<le> length content" using s'b snoc.prems(2) by simp
  have p3: "s' \<le> length ?result'" using s'(2) sl by simp
  have "take s' ?result' = take s' result" using s'(2) sl by simp
  also have "\<dots> = take s' (take b result)" using s'b by (simp add: min_def)
  also have "\<dots> = take s' content" using s'b snoc.prems(4) by (simp add: min_def)
  finally have p4: "take s' ?result' = take s' content" .
  have p5: "xs \<noteq> [] \<longrightarrow> range_end (last xs) \<le> s'"
  proof
    assume "xs \<noteq> []"
    with gap obtain k where k: "range_end (last xs) \<le> k" "k < ?s" "content ! k = LF"
      by (auto simp: in_set_drop_take)
    from k(2) se eb have "k < b" by simp
    with snoc.prems(4) k(3) have "result ! k = LF" by (metis nth_take)
    with extend_start_stops [OF s'(1) k(2)] have "k < s'" by simp
    with k(1) show "range_end (last xs) \<le> s'" by simp
  qed
  from snoc.IH [OF sep p2 p3 p4 p5]
  obtain out where "remove_ranges ?result' (rev xs) = Some out" by blast
  with rr show ?case by simp
qed

lemma splice_separated: "separated content rs \<Longrightarrow> \<exists>out. splice_ranges content rs = Some out"
  unfolding splice_ranges_def
  using remove_ranges_separated [of content rs "length content" content] separated_last [of content rs]
  by auto

lemma processFile_returns:
  assumes "d filePath = Some content"
    and "ParseConfig E content filePath = SyntaxBody blocks"
    and "separated content (removedRanges blocks)"
  shows "\<exists>res. processFile E filePath stats d = Some res"
proof -
  have "\<exists>out. resultContent content (removedRanges blocks) = Some out"
    using splice_separated [OF assms(3)] by (simp add: resultContent_def)
  then obtain out where "resultContent content (removedRanges blocks) = Some out" ..
  with assms(1,2) show ?thesis
    by (simp add: processFile_def Let_def split: prod.splits option.splits)
qed

lemma resultContent_keeps_comment:
  assumes "content = A @ cmt @ B"
    and "cmt \<noteq> []" and "CR \<notin> set cmt" and "LF \<notin> set cmt"
    and "B \<noteq> []" and "hd B = LF \<or> hd B = CR"
    and "separated content rs"
    and "\<forall>r\<in>set rs. range_end r \<le> length A \<or> length A + length cmt < range_start r"
  shows "\<exists>result. resultContent content rs = Some result \<and> sublist cmt result"
proof (cases "rs = []")
  case True
  with assms(1) show ?thesis by (simp add: resultContent_def)
next
  case False
  from assms(2-4) have h: "hd cmt \<noteq> CR" "hd cmt \<noteq> LF" by (cases cmt; auto)+
  from assms(6) have b: "hd B \<noteq> SP" "hd B \<noteq> TAB" by auto
  from splice_keeps_comment [OF assms(2) h assms(5) b assms(1) assms(7) assms(8)] False
  show ?thesis by (simp add: resultContent_def)
qed

text \<open>
  C5. Let the file hold a comment text \<open>cmt\<close> on one line, with the line's terminator
  behind it, and let the located ranges be separated and none of them reach into the
  comment or its terminator (a range starts at its block's keyword). If the formatter
  keeps the text \<open>cmt\<close> and the write succeeds, \<open>processFile\<close> returns without error and
  the file on disk still contains \<open>cmt\<close>, byte for byte. This covers the comment line
  directly above a \<open>removed\<close> block.
\<close>

theorem processFile_keeps_comment:
  assumes "d filePath = Some content"
    and "ParseConfig E content filePath = SyntaxBody blocks"
    and "content = A @ cmt @ B"
    and "cmt \<noteq> []" and "CR \<notin> set cmt" and "LF \<notin> set cmt"
    and "B \<noteq> []" and "hd B = LF \<or> hd B = CR"
    and "separated content (removedRanges blocks)"
    and "\<forall>r\<in>set (removedRanges blocks).
           range_end r \<le> length A \<or> length A + length cmt < range_start r"
    and "\<forall>b. sublist cmt b \<longrightarrow> sublist cmt (Format E b)"
    and "\<forall>b. WriteFile E filePath b d = (None, d(filePath \<mapsto> b))"
  shows "\<exists>stats' d' out. processFile E filePath stats d = Some (None, stats', d')
           \<and> d' filePath = Some out \<and> sublist cmt out"
proof -
  let ?rs = "removedRanges blocks"
  from resultContent_keeps_comment [OF assms(3-10)] obtain result where
    r: "resultContent content ?rs = Some result" and sr: "sublist cmt result" by blast
  let ?f = "Format E result"
  let ?g = "if 0 < length ?rs \<and> NormalizeWhitespace stats
            then normalizeConsecutiveNewlines ?f else ?f"
  from sr assms(11) have sf: "sublist cmt ?f" by blast
  then have sg: "sublist cmt ?g"
    using sublist_normalize [OF assms(4-6)] by simp
  have sc: "sublist cmt content" using assms(3) by simp
  show ?thesis
  proof (cases "DryRun stats")
    case True
    with assms(1,2) sc show ?thesis
      by (simp add: processFile_def Let_def)
  next
    case dry: False
    show ?thesis
    proof (cases "0 < length ?rs \<or> ?g \<noteq> content")
      case True
      with dry assms(1,2,12) r sg show ?thesis
        by (simp add: processFile_def Let_def)
    next
      case False
      with dry assms(1,2) r sc show ?thesis
        by (simp add: processFile_def Let_def)
    qed
  qed
qed

lemma resultContent_two_blocks_tf:
  "resultContent two_blocks_tf
     [\<lparr>range_start = 0, range_end = 10\<rparr>, \<lparr>range_start = 20, range_end = 30\<rparr>]
   = Some (''# note'' @ [LF])"
  by code_simp

theorem processFile_keeps_comment_witness:
  "\<exists>stats' d' out.
     processFile
       (fixed_externals
          (SyntaxBody [\<lparr>Type = ''removed'', Start_Byte = 0, End_Byte = 10\<rparr>,
                       \<lparr>Type = ''removed'', Start_Byte = 20, End_Byte = 30\<rparr>])
          (\<lambda>b. b) False)
       ''main.tf'' (stats0\<lparr>NormalizeWhitespace := True\<rparr>) [''main.tf'' \<mapsto> two_blocks_tf]
     = Some (None, stats', d')
     \<and> d' ''main.tf'' = Some out \<and> sublist ''# note'' out"
proof -
  let ?blocks = "[\<lparr>Type = ''removed'', Start_Byte = 0, End_Byte = 10\<rparr>,
                  \<lparr>Type = ''removed'', Start_Byte = 20, End_Byte = 30\<rparr>]"
  let ?E = "fixed_externals (SyntaxBody ?blocks) (\<lambda>b. b) False"
  let ?A = "''removed {}'' @ [LF]"
  let ?B = "[LF, SP, SP] @ ''removed {}'' @ [LF]"
  have 1: "[''main.tf'' \<mapsto> two_blocks_tf] ''main.tf'' = Some two_blocks_tf" by simp
  have 2: "ParseConfig ?E two_blocks_tf ''main.tf'' = SyntaxBody ?blocks"
    by (simp add: fixed_externals_def)
  have 3: "two_blocks_tf = ?A @ ''# note'' @ ?B" by (simp add: two_blocks_tf_def)
  have 4: "''# note'' \<noteq> []" "CR \<notin> set ''# note''" "LF \<notin> set ''# note''" by simp_all
  have 5: "?B \<noteq> []" "hd ?B = LF \<or> hd ?B = CR" by simp_all
  have 6: "separated two_blocks_tf (removedRanges ?blocks)"
    by (simp add: two_blocks_tf_def)
  have 7: "\<forall>r\<in>set (removedRanges ?blocks).
      range_end r \<le> length ?A \<or> length ?A + length ''# note'' < range_start r"
    by simp
  have 8: "\<forall>b. sublist ''# note'' b \<longrightarrow> sublist ''# note'' (Format ?E b)"
    by (simp add: fixed_externals_def)
  have 9: "\<forall>b. WriteFile ?E ''main.tf'' b [''main.tf'' \<mapsto> two_blocks_tf]
      = (None, [''main.tf'' \<mapsto> two_blocks_tf](''main.tf'' \<mapsto> b))"
    by (simp add: fixed_externals_def)
  show ?thesis
    by (rule processFile_keeps_comment [OF 1 2 3 4 5 6 7 8 9])
qed

section \<open>The splicing loop as a whole, and what is written\<close>

lemma nths_interval: "nths xs {i. a \<le> i \<and> i < b} = drop a (take b xs)"
proof (induction xs arbitrary: a b)
  case Nil
  then show ?case by simp
next
  case (Cons x xs)
  have "{j. a \<le> Suc j \<and> Suc j < b} = {j. a - 1 \<le> j \<and> j < b - 1}" by auto
  with Cons [of "a - 1" "b - 1"] show ?case
    by (cases a; cases b) (auto simp: nths_Cons)
qed

lemma nths_split: "nths xs S = nths xs {i \<in> S. i < m} @ nths xs {i \<in> S. m \<le> i}"
proof (induction xs arbitrary: S m)
  case Nil
  then show ?case by simp
next
  case (Cons x xs)
  show ?case
  proof (cases m)
    case 0
    then show ?thesis by simp
  next
    case (Suc m')
    have 1: "{j. Suc j \<in> {i \<in> S. i < Suc m'}} = {j \<in> {j. Suc j \<in> S}. j < m'}" by auto
    have 2: "{j. Suc j \<in> {i \<in> S. Suc m' \<le> i}} = {j \<in> {j. Suc j \<in> S}. m' \<le> j}" by auto
    from Cons [of "{j. Suc j \<in> S}" m'] Suc show ?thesis
      by (simp add: nths_Cons 1 2)
  qed
qed

lemma chain_lower: "chain pos ws \<Longrightarrow> (s, e) \<in> set ws \<Longrightarrow> pos \<le> s \<and> s \<le> e"
  by (induction pos ws rule: chain.induct) auto

lemma cut_eq_nths:
  "chain pos ws \<Longrightarrow>
   cut pos c ws = nths c {i. pos \<le> i \<and> (\<forall>(s, e)\<in>set ws. \<not> (s \<le> i \<and> i < e))}"
proof (induction pos ws rule: chain.induct)
  case (1 pos)
  then show ?case by (simp add: drop_eq_nths)
next
  case (2 pos s e ws)
  then have ch: "chain e ws" and pse: "pos \<le> s" "s \<le> e" by simp_all
  let ?S = "{i. pos \<le> i \<and> (\<forall>(s', e')\<in>set ((s, e) # ws). \<not> (s' \<le> i \<and> i < e'))}"
  have lo: "{i \<in> ?S. i < e} = {i. pos \<le> i \<and> i < s}"
    using chain_lower [OF ch] pse by fastforce
  have hi: "{i \<in> ?S. e \<le> i} = {i. e \<le> i \<and> (\<forall>(s', e')\<in>set ws. \<not> (s' \<le> i \<and> i < e'))}"
    using pse by auto
  have "nths c ?S = nths c {i \<in> ?S. i < e} @ nths c {i \<in> ?S. e \<le> i}"
    by (rule nths_split)
  also have "\<dots> = drop pos (take s c) @ cut e c ws"
    unfolding lo hi using "2.IH" ch by (simp add: nths_interval)
  finally show ?case by simp
qed

lemma cut_snoc:
  "\<forall>(a, b)\<in>set ws. a \<le> s \<Longrightarrow> cut pos c (ws @ [(s, e)]) = cut pos (take s c) ws @ drop e c"
proof (induction ws arbitrary: pos)
  case Nil
  then show ?case by simp
next
  case (Cons w ws)
  obtain a b where w: "w = (a, b)" by (cases w)
  with Cons.prems have "a \<le> s" by simp
  then have "take a (take s c) = take a c" by (simp add: min_def)
  with Cons w show ?case by simp
qed

lemma extend_start_agree:
  "take s a = take s b \<Longrightarrow> s \<le> length a \<Longrightarrow> s \<le> length b \<Longrightarrow>
   extend_start a s = extend_start b s"
proof (induction s)
  case 0
  then show ?case by simp
next
  case (Suc n)
  from Suc.prems have "take (Suc n) a ! n = take (Suc n) b ! n" by simp
  then have n: "a ! n = b ! n" by simp
  from Suc.prems have "take n (take (Suc n) a) = take n (take (Suc n) b)" by simp
  then have "take n a = take n b" by (simp add: min_def)
  with Suc n show ?case by simp
qed

lemma extend_end_agree:
  "take (Suc k) a = take (Suc k) b \<Longrightarrow> k < length a \<Longrightarrow> k < length b \<Longrightarrow> a ! k = LF \<Longrightarrow>
   e \<le> k \<Longrightarrow> extend_end a e = extend_end b e"
proof (induction a e rule: extend_end.induct)
  case (1 a e)
  from "1.prems"(1,5) have "take (Suc k) a ! e = take (Suc k) b ! e" by simp
  with "1.prems"(5) have e: "a ! e = b ! e" by simp
  from "1.prems" have el: "e < length a" "e < length b" by simp_all
  consider (lf) "a ! e = LF" | (cr) "a ! e = CR" | (other) "a ! e \<noteq> CR" "a ! e \<noteq> LF"
    by blast
  then show ?case
  proof cases
    case lf
    with e el show ?thesis by (simp add: extend_end_LF)
  next
    case cr
    with "1.prems"(4,5) have "e \<noteq> k" by auto
    with "1.prems"(5) have "Suc e \<le> k" by simp
    with "1.IH" "1.prems"(1-4) cr el have "extend_end a (Suc e) = extend_end b (Suc e)"
      by simp
    with cr e el show ?thesis by (simp add: extend_end_CR)
  next
    case other
    with e show ?thesis by (simp add: extend_end_stop)
  qed
qed

lemma separated_all:
  "separated content rs \<Longrightarrow>
   \<forall>r\<in>set rs. range_start r \<le> range_end r \<and> range_end r \<le> range_end (last rs)
     \<and> range_end r \<le> length content"
proof (induction content rs rule: separated.induct)
  case (1 content)
  then show ?case by simp
next
  case (2 content x)
  then show ?case by simp
next
  case (3 content x x' xs)
  from "3.prems"(1) have x: "range_start x \<le> range_end x"
    and lf: "LF \<in> set (drop (range_end x) (take (range_start x') content))"
    and sep: "separated content (x' # xs)" by simp_all
  from lf obtain k where k: "range_end x \<le> k" "k < range_start x'"
    by (auto simp: in_set_drop_take)
  from "3.IH" [OF sep] have all: "\<forall>r\<in>set (x' # xs). range_start r \<le> range_end r
      \<and> range_end r \<le> range_end (last (x' # xs)) \<and> range_end r \<le> length content" .
  then have x': "range_start x' \<le> range_end x'"
    "range_end x' \<le> range_end (last (x' # xs))" "range_end x' \<le> length content"
    by simp_all
  from x k x' have "range_start x \<le> range_end x
      \<and> range_end x \<le> range_end (last (x # x' # xs)) \<and> range_end x \<le> length content"
    by simp
  with all show ?case by simp
qed

lemma separated_member:
  "separated content rs \<Longrightarrow> r \<in> set rs \<Longrightarrow>
   range_start r \<le> range_end r \<and> range_end r \<le> range_end (last rs)
   \<and> range_end r \<le> length content"
  using separated_all by blast

lemma widened_fst:
  "range_start r \<le> length content \<Longrightarrow>
   extend_start content (range_start r) = Some (fst (widened content r))
   \<and> fst (widened content r) \<le> range_start r"
  using extend_start_Some [of "range_start r" content] by (auto simp: widened_def)

lemma remove_ranges_cut:
  "separated content rs \<Longrightarrow>
     b \<le> length content \<Longrightarrow> b \<le> length result \<Longrightarrow> take b result = take b content \<Longrightarrow>
     rs \<noteq> [] \<longrightarrow> range_end (last rs) \<le> b \<and>
       (b = length content \<and> result = content
        \<or> LF \<in> set (drop (range_end (last rs)) (take b content))) \<Longrightarrow>
     remove_ranges result (rev rs)
       = Some (cut 0 (take b content) (map (widened content) rs) @ drop b result)"
proof (induction rs arbitrary: result b rule: rev_induct)
  case Nil
  then show ?case by (metis append_take_drop_id cut.simps(1) drop0 list.simps(8) remove_ranges.simps(1) rev.simps(1))
next
  case (snoc r xs)
  let ?s = "range_start r" and ?e = "range_end r"
  from separated_snoc [OF snoc.prems(1)]
  have sep: "separated content xs" and se: "?s \<le> ?e" "?e \<le> length content"
    and gap: "xs \<noteq> [] \<longrightarrow> LF \<in> set (drop (range_end (last xs)) (take ?s content))"
    by simp_all
  from snoc.prems(5) have eb: "?e \<le> b"
    and bar: "b = length content \<and> result = content \<or> LF \<in> set (drop ?e (take b content))"
    by simp_all
  have same: "result ! k = content ! k" if "k < b" for k
    using snoc.prems(4) that by (metis nth_take)
  from se eb snoc.prems(3) have sl: "?s \<le> length result" and el: "?e \<le> length result"
    by simp_all
  let ?s' = "fst (widened content r)" and ?e' = "snd (widened content r)"
  from se have w: "extend_start content ?s = Some ?s'" "?s' \<le> ?s"
    using widened_fst [of r content] by simp_all
  have sb: "?s \<le> b" using se(1) eb by simp
  then have "take ?s result = take ?s content"
    using snoc.prems(4) by (metis min.absorb1 take_take)
  with sl se have s': "extend_start result ?s = Some ?s'"
    using extend_start_agree [of ?s result content] w(1) by simp
  have e': "extend_end result ?e = ?e' \<and> ?e' \<le> b"
  proof -
    from bar consider "b = length content" "result = content"
      | k where "?e \<le> k" "k < b" "content ! k = LF"
      by (auto simp: in_set_drop_take)
    then show ?thesis
    proof cases
      case 1
      with se(2) extend_end_bounds [of ?e content] show ?thesis by (simp add: widened_def)
    next
      case (2 k)
      from 2(2) snoc.prems(2,3) have kl: "k < length result" "k < length content" by simp_all
      from 2(2) snoc.prems(4) have tk: "take (Suc k) result = take (Suc k) content"
        by (metis Suc_leI min.absorb1 take_take)
      from same [OF 2(2)] 2(3) have rk: "result ! k = LF" by simp
      from extend_end_agree [OF tk kl rk 2(1)]
      have "extend_end result ?e = ?e'" by (simp add: widened_def)
      moreover have "extend_end result ?e \<le> Suc k"
        using 2(1) kl(1) rk by (rule extend_end_stops_after_LF)
      ultimately show ?thesis using 2(2) by simp
    qed
  qed
  have ee: "?e \<le> ?e'" using el extend_end_bounds [of ?e result] e' by simp
  let ?result' = "take ?s' result @ drop ?e' result"
  have rr: "remove_range result r = Some ?result'"
    using s' e' el by (simp add: remove_range_def)
  have s'b: "?s' \<le> b" using w(2) sb by simp
  have p2: "?s' \<le> length content" using s'b snoc.prems(2) by simp
  have p3: "?s' \<le> length ?result'" using w(2) sl by simp
  have "take ?s' ?result' = take ?s' result" using w(2) sl by simp
  also have "\<dots> = take ?s' content"
    using s'b snoc.prems(4) by (metis min.absorb1 take_take)
  finally have p4: "take ?s' ?result' = take ?s' content" .
  have p5: "xs \<noteq> [] \<longrightarrow> range_end (last xs) \<le> ?s' \<and>
       (?s' = length content \<and> ?result' = content
        \<or> LF \<in> set (drop (range_end (last xs)) (take ?s' content)))"
  proof
    assume "xs \<noteq> []"
    with gap obtain k where k: "range_end (last xs) \<le> k" "k < ?s" "k < length content"
        "content ! k = LF"
      by (auto simp: in_set_drop_take)
    with extend_start_stops [OF w(1) k(2)] have "k < ?s'" by simp
    with k show "range_end (last xs) \<le> ?s' \<and>
       (?s' = length content \<and> ?result' = content
        \<or> LF \<in> set (drop (range_end (last xs)) (take ?s' content)))"
      by (auto simp: in_set_drop_take)
  qed
  have d: "drop ?s' ?result' = drop ?e' result" using w(2) sl by simp
  from snoc.IH [OF sep p2 p3 p4 p5] d
  have IH: "remove_ranges ?result' (rev xs)
      = Some (cut 0 (take ?s' content) (map (widened content) xs) @ drop ?e' result)"
    by simp
  have starts: "\<forall>(a, c)\<in>set (map (widened content) xs). a \<le> ?s'"
  proof (cases "xs = []")
    case True
    then show ?thesis by simp
  next
    case False
    with p5 have l: "range_end (last xs) \<le> ?s'" by simp
    have "fst (widened content x) \<le> ?s'" if "x \<in> set xs" for x
    proof -
      from separated_member [OF sep that]
      have "range_start x \<le> range_end x" "range_end x \<le> range_end (last xs)"
        "range_end x \<le> length content" by simp_all
      with widened_fst [of x content] l show ?thesis by simp
    qed
    then show ?thesis by (simp add: case_prod_beta)
  qed
  have "cut 0 (take b content) (map (widened content) (xs @ [r]))
      = cut 0 (take b content) (map (widened content) xs @ [(?s', ?e')])" by simp
  also have "\<dots> = cut 0 (take ?s' (take b content)) (map (widened content) xs)
      @ drop ?e' (take b content)"
    using starts by (rule cut_snoc)
  also have "take ?s' (take b content) = take ?s' content"
    using s'b by (simp add: min_def)
  finally have c: "cut 0 (take b content) (map (widened content) (xs @ [r]))
      = cut 0 (take ?s' content) (map (widened content) xs) @ drop ?e' (take b content)" .
  have "drop ?e' (take b content) @ drop b result = drop ?e' (take b result) @ drop b result"
    using snoc.prems(4) by simp
  also have "\<dots> = drop ?e' (take b result @ drop b result)"
    using e' snoc.prems(3) by (simp del: append_take_drop_id)
  also have "\<dots> = drop ?e' result" by simp
  finally have t: "drop ?e' (take b content) @ drop b result = drop ?e' result" .
  from rr IH c t show ?case by simp
qed

lemma widened_chain:
  "separated content rs \<Longrightarrow> (rs \<noteq> [] \<longrightarrow> pos \<le> fst (widened content (hd rs))) \<Longrightarrow>
   chain pos (map (widened content) rs)"
proof (induction content rs arbitrary: pos rule: separated.induct)
  case (1 content)
  then show ?case by simp
next
  case (2 content r)
  then have "range_start r \<le> range_end r" "range_end r \<le> length content" by simp_all
  with widened_fst [of r content] extend_end_bounds [of "range_end r" content] "2.prems"(2)
  show ?case by (simp add: widened_def)
next
  case (3 content r r' rs)
  from "3.prems"(1) have r: "range_start r \<le> range_end r"
    and lf: "LF \<in> set (drop (range_end r) (take (range_start r') content))"
    and sep: "separated content (r' # rs)" by simp_all
  from lf obtain k where k: "range_end r \<le> k" "k < range_start r'" "k < length content"
      "content ! k = LF"
    by (auto simp: in_set_drop_take)
  from separated_member [OF sep, of r'] have r': "range_start r' \<le> length content" by simp
  from widened_fst [OF r'] have s': "extend_start content (range_start r')
      = Some (fst (widened content r'))" by simp
  from extend_start_stops [OF s' k(2)] k(4) have ks: "k < fst (widened content r')" by simp
  have "extend_end content (range_end r) \<le> Suc k"
    using k(1,3,4) by (rule extend_end_stops_after_LF)
  with ks have le: "snd (widened content r) \<le> fst (widened content r')"
    by (simp add: widened_def)
  from k r have rl: "range_start r \<le> length content" "range_end r \<le> length content"
    by simp_all
  from widened_fst [OF rl(1)] r extend_end_bounds [OF rl(2)]
  have "fst (widened content r) \<le> snd (widened content r)" by (simp add: widened_def)
  moreover have "chain (snd (widened content r)) (map (widened content) (r' # rs))"
    using "3.IH" [OF sep] le by simp
  moreover have "pos \<le> fst (widened content r)" using "3.prems"(2) by simp
  ultimately show ?case by (cases "widened content r") simp
qed

lemma splice_ranges_nths:
  assumes "separated content rs"
  shows "splice_ranges content rs =
    Some (nths content
      {i. \<forall>r\<in>set rs. \<forall>s. extend_start content (range_start r) = Some s \<longrightarrow>
            \<not> (s \<le> i \<and> i < extend_end content (range_end r))})"
proof -
  let ?ws = "map (widened content) rs"
  have "remove_ranges content (rev rs)
      = Some (cut 0 (take (length content) content) ?ws @ drop (length content) content)"
    using assms separated_last [OF assms]
    by (intro remove_ranges_cut) simp_all
  then have 1: "splice_ranges content rs = Some (cut 0 content ?ws)"
    by (simp add: splice_ranges_def)
  have "chain 0 ?ws" using assms by (rule widened_chain) simp
  then have 2: "cut 0 content ?ws
      = nths content {i. 0 \<le> i \<and> (\<forall>(s, e)\<in>set ?ws. \<not> (s \<le> i \<and> i < e))}"
    by (rule cut_eq_nths)
  have w: "extend_start content (range_start r) = Some (fst (widened content r))"
    if "r \<in> set rs" for r
    using separated_member [OF assms that] widened_fst [of r content] by simp
  have 3: "{i. 0 \<le> i \<and> (\<forall>(s, e)\<in>set ?ws. \<not> (s \<le> i \<and> i < e))}
      = {i. \<forall>r\<in>set rs. \<forall>s. extend_start content (range_start r) = Some s \<longrightarrow>
            \<not> (s \<le> i \<and> i < extend_end content (range_end r))}"
    using w by (auto simp: widened_def)
  from 1 2 3 show ?thesis by simp
qed

lemma prefix_drop1: "prefix [c] (drop e xs) \<longleftrightarrow> e < length xs \<and> xs ! e = c"
proof (cases "e < length xs")
  case True
  then have "drop e xs = xs ! e # drop (Suc e) xs" by (simp add: Cons_nth_drop_Suc)
  with True show ?thesis by auto
next
  case False
  then show ?thesis by simp
qed

lemma prefix_drop2:
  "prefix [c, c'] (drop e xs) \<longleftrightarrow> Suc e < length xs \<and> xs ! e = c \<and> xs ! Suc e = c'"
proof (cases "Suc e < length xs")
  case True
  then have "drop e xs = xs ! e # xs ! Suc e # drop (Suc (Suc e)) xs"
    by (simp add: Cons_nth_drop_Suc Suc_lessD)
  with True show ?thesis by auto
next
  case False
  show ?thesis
  proof (cases "e < length xs")
    case True
    with False have "drop e xs = [xs ! e]"
      by (metis Cons_nth_drop_Suc drop_all not_less)
    with False show ?thesis by simp
  next
    case False
    then show ?thesis by simp
  qed
qed

lemma extend_end_one_terminator:
  assumes "e \<le> length content"
    and "e < length content \<and> content ! e = CR \<longrightarrow>
         Suc e < length content \<and> content ! Suc e = LF"
  shows "drop e (take (extend_end content e) content) \<in> {[], [LF], [CR, LF]}
    \<and> (prefix [LF] (drop e content) \<longrightarrow> extend_end content e = e + 1)
    \<and> (prefix [CR, LF] (drop e content) \<longrightarrow> extend_end content e = e + 2)
    \<and> (\<not> prefix [LF] (drop e content) \<and> \<not> prefix [CR, LF] (drop e content) \<longrightarrow>
         extend_end content e = e)"
proof -
  consider (stop) "e = length content \<or> (content ! e \<noteq> CR \<and> content ! e \<noteq> LF)"
    | (lf) "e < length content" "content ! e = LF"
    | (cr) "e < length content" "content ! e = CR"
    using assms(1) by force
  then show ?thesis
  proof cases
    case stop
    then have "extend_end content e = e" by (rule extend_end_stop)
    with stop show ?thesis by (auto simp: prefix_drop1 prefix_drop2)
  next
    case lf
    then have "extend_end content e = Suc e" by (rule extend_end_LF)
    moreover have "drop e (take (Suc e) content) = [LF]"
      using lf by (simp add: drop_take_Suc)
    ultimately show ?thesis using lf by (auto simp: prefix_drop1 prefix_drop2)
  next
    case cr
    with assms(2) have n: "Suc e < length content" "content ! Suc e = LF" by simp_all
    from cr n have ee: "extend_end content e = Suc (Suc e)"
      by (simp add: extend_end_CR extend_end_LF)
    have "drop e (take (Suc (Suc e)) content) = [CR, LF]"
      using cr n by (simp add: drop_take_Suc)
    with ee cr n show ?thesis by (auto simp: prefix_drop1 prefix_drop2)
  qed
qed

text \<open>
  C1. Let the located ranges be separated, and let a carriage return directly behind a
  range have a line feed behind it (where a block ends, \<open>\r\<close> is only accepted as part
  of \<open>\r\n\<close>). Then the loop over all ranges, last first, returns the content without
  the bytes of the widened ranges and with every other byte in its place and order. Each
  range is widened at the start over exactly the run of spaces and tabs before it, and at
  the end over at most one line terminator directly behind it, \<open>\n\<close> or \<open>\r\n\<close>,
  whatever follows that terminator.
\<close>

theorem splice_ranges_boundaries:
  assumes "separated content rs"
    and "\<forall>r\<in>set rs. range_end r < length content \<and> content ! range_end r = CR \<longrightarrow>
           Suc (range_end r) < length content \<and> content ! Suc (range_end r) = LF"
  shows "splice_ranges content rs =
      Some (nths content
        {i. \<forall>r\<in>set rs. \<forall>s. extend_start content (range_start r) = Some s \<longrightarrow>
              \<not> (s \<le> i \<and> i < extend_end content (range_end r))})
    \<and> (\<forall>r\<in>set rs. \<exists>s e.
          extend_start content (range_start r) = Some s
          \<and> extend_end content (range_end r) = e
          \<and> s \<le> range_start r
          \<and> (\<forall>i. s \<le> i \<and> i < range_start r \<longrightarrow> content ! i = SP \<or> content ! i = TAB)
          \<and> (0 < s \<longrightarrow> content ! (s - 1) \<noteq> SP \<and> content ! (s - 1) \<noteq> TAB)
          \<and> range_end r \<le> e \<and> e \<le> length content
          \<and> drop (range_end r) (take e content) \<in> {[], [LF], [CR, LF]}
          \<and> (prefix [LF] (drop (range_end r) content) \<longrightarrow> e = range_end r + 1)
          \<and> (prefix [CR, LF] (drop (range_end r) content) \<longrightarrow> e = range_end r + 2)
          \<and> (\<not> prefix [LF] (drop (range_end r) content)
               \<and> \<not> prefix [CR, LF] (drop (range_end r) content) \<longrightarrow> e = range_end r))"
proof
  show "splice_ranges content rs =
      Some (nths content
        {i. \<forall>r\<in>set rs. \<forall>s. extend_start content (range_start r) = Some s \<longrightarrow>
              \<not> (s \<le> i \<and> i < extend_end content (range_end r))})"
    using assms(1) by (rule splice_ranges_nths)
next
  show "\<forall>r\<in>set rs. \<exists>s e.
          extend_start content (range_start r) = Some s
          \<and> extend_end content (range_end r) = e
          \<and> s \<le> range_start r
          \<and> (\<forall>i. s \<le> i \<and> i < range_start r \<longrightarrow> content ! i = SP \<or> content ! i = TAB)
          \<and> (0 < s \<longrightarrow> content ! (s - 1) \<noteq> SP \<and> content ! (s - 1) \<noteq> TAB)
          \<and> range_end r \<le> e \<and> e \<le> length content
          \<and> drop (range_end r) (take e content) \<in> {[], [LF], [CR, LF]}
          \<and> (prefix [LF] (drop (range_end r) content) \<longrightarrow> e = range_end r + 1)
          \<and> (prefix [CR, LF] (drop (range_end r) content) \<longrightarrow> e = range_end r + 2)
          \<and> (\<not> prefix [LF] (drop (range_end r) content)
               \<and> \<not> prefix [CR, LF] (drop (range_end r) content) \<longrightarrow> e = range_end r)"
  proof
    fix r assume r: "r \<in> set rs"
    from separated_member [OF assms(1) r]
    have se: "range_start r \<le> range_end r" "range_end r \<le> length content" by simp_all
    then have "range_start r \<le> length content" by simp
    from extend_start_Some [OF this] obtain s where s:
      "extend_start content (range_start r) = Some s" "s \<le> range_start r"
      "\<forall>i. s \<le> i \<and> i < range_start r \<longrightarrow> content ! i = SP \<or> content ! i = TAB"
      "0 < s \<longrightarrow> content ! (s - 1) \<noteq> SP \<and> content ! (s - 1) \<noteq> TAB"
      by blast
    from assms(2) r have cr: "range_end r < length content \<and> content ! range_end r = CR \<longrightarrow>
        Suc (range_end r) < length content \<and> content ! Suc (range_end r) = LF" by blast
    note e = extend_end_one_terminator [OF se(2) cr] extend_end_bounds [OF se(2)]
    from s e show "\<exists>s e.
          extend_start content (range_start r) = Some s
          \<and> extend_end content (range_end r) = e
          \<and> s \<le> range_start r
          \<and> (\<forall>i. s \<le> i \<and> i < range_start r \<longrightarrow> content ! i = SP \<or> content ! i = TAB)
          \<and> (0 < s \<longrightarrow> content ! (s - 1) \<noteq> SP \<and> content ! (s - 1) \<noteq> TAB)
          \<and> range_end r \<le> e \<and> e \<le> length content
          \<and> drop (range_end r) (take e content) \<in> {[], [LF], [CR, LF]}
          \<and> (prefix [LF] (drop (range_end r) content) \<longrightarrow> e = range_end r + 1)
          \<and> (prefix [CR, LF] (drop (range_end r) content) \<longrightarrow> e = range_end r + 2)
          \<and> (\<not> prefix [LF] (drop (range_end r) content)
               \<and> \<not> prefix [CR, LF] (drop (range_end r) content) \<longrightarrow> e = range_end r)"
      by blast
  qed
qed

theorem splice_ranges_boundaries_witness:
  "separated crlf_tf [\<lparr>range_start = 0, range_end = 10\<rparr>, \<lparr>range_start = 16, range_end = 26\<rparr>]
   \<and> splice_ranges crlf_tf
        [\<lparr>range_start = 0, range_end = 10\<rparr>, \<lparr>range_start = 16, range_end = 26\<rparr>]
       = Some (''a'' @ [CR, LF, CR, LF])
   \<and> (\<exists>K. splice_ranges crlf_tf
              [\<lparr>range_start = 0, range_end = 10\<rparr>, \<lparr>range_start = 16, range_end = 26\<rparr>]
            = Some (nths crlf_tf K))
   \<and> extend_end crlf_tf 10 = 12 \<and> extend_end crlf_tf 26 = 28"
proof -
  let ?rs = "[\<lparr>range_start = 0, range_end = 10\<rparr>, \<lparr>range_start = 16, range_end = 26\<rparr>]"
  have sep: "separated crlf_tf ?rs" by (simp add: crlf_tf_def)
  have cr: "\<forall>r\<in>set ?rs. range_end r < length crlf_tf \<and> crlf_tf ! range_end r = CR \<longrightarrow>
      Suc (range_end r) < length crlf_tf \<and> crlf_tf ! Suc (range_end r) = LF"
    by (simp add: crlf_tf_def)
  have p: "prefix [CR, LF] (drop 10 crlf_tf)" "prefix [CR, LF] (drop 26 crlf_tf)"
    by (simp_all add: crlf_tf_def)
  have v: "splice_ranges crlf_tf ?rs = Some (''a'' @ [CR, LF, CR, LF])" by code_simp
  note t = splice_ranges_boundaries [OF sep cr]
  from t have k: "\<exists>K. splice_ranges crlf_tf ?rs = Some (nths crlf_tf K)" by blast
  from t have "\<forall>r\<in>set ?rs. prefix [CR, LF] (drop (range_end r) crlf_tf) \<longrightarrow>
      extend_end crlf_tf (range_end r) = range_end r + 2" by blast
  with p have "extend_end crlf_tf 10 = 12 \<and> extend_end crlf_tf 26 = 28" by simp
  with sep v k show ?thesis by blast
qed

text \<open>
  C3, as the code counts and writes. For a file that is read and parsed, and whose
  splicing does not panic: one more file is processed, and one more block is removed per
  located range. Outside a dry run the file is counted as modified exactly when a range
  was located or the formatted buffer differs from the content read, and exactly then
  the formatted buffer is handed to the write; what is formatted is, for separated
  ranges, the content without the bytes of the widened ranges. In a dry run nothing is
  written and a file with a located range is counted as modified.
\<close>

theorem processFile_counters:
  assumes "d filePath = Some content"
    and "ParseConfig E content filePath = SyntaxBody blocks"
    and "processFile E filePath stats d = Some (err, stats', d')"
  shows "FilesProcessed stats' = FilesProcessed stats + 1 \<and>
     RemovedBlocksRemoved stats' =
       RemovedBlocksRemoved stats + of_nat (length (removedRanges blocks)) \<and>
     (\<not> DryRun stats \<longrightarrow>
        (\<exists>result formatted.
           resultContent content (removedRanges blocks) = Some result \<and>
           (separated content (removedRanges blocks) \<longrightarrow>
              result = nths content
                {i. \<forall>r\<in>set (removedRanges blocks).
                      \<forall>s. extend_start content (range_start r) = Some s \<longrightarrow>
                        \<not> (s \<le> i \<and> i < extend_end content (range_end r))}) \<and>
           formatted = (if removedRanges blocks \<noteq> [] \<and> NormalizeWhitespace stats
                        then normalizeConsecutiveNewlines (Format E result)
                        else Format E result) \<and>
           FilesModified stats' = FilesModified stats +
             (if removedRanges blocks \<noteq> [] \<or> formatted \<noteq> content then 1 else 0) \<and>
           (if removedRanges blocks \<noteq> [] \<or> formatted \<noteq> content
            then err = map_option (WriteError filePath) (fst (WriteFile E filePath formatted d))
                 \<and> d' = snd (WriteFile E filePath formatted d)
            else err = None \<and> d' = d))) \<and>
     (DryRun stats \<longrightarrow>
        err = None \<and> d' = d \<and>
        (removedRanges blocks \<noteq> [] \<longrightarrow> FilesModified stats' = FilesModified stats + 1))"
proof (cases "DryRun stats")
  case True
  with assms show ?thesis
    by (auto simp: processFile_def Let_def split: if_splits)
next
  case False
  let ?rs = "removedRanges blocks"
  from False assms obtain result where r: "resultContent content ?rs = Some result"
    by (auto simp: processFile_def Let_def split: option.splits)
  have n: "separated content ?rs \<longrightarrow>
      result = nths content
        {i. \<forall>r\<in>set ?rs. \<forall>s. extend_start content (range_start r) = Some s \<longrightarrow>
              \<not> (s \<le> i \<and> i < extend_end content (range_end r))}"
  proof (cases "?rs = []")
    case True
    with r show ?thesis by (simp add: resultContent_def nths_all)
  next
    case False
    with r splice_ranges_nths [of content ?rs] show ?thesis
      by (auto simp: resultContent_def)
  qed
  let ?f = "if ?rs \<noteq> [] \<and> NormalizeWhitespace stats
            then normalizeConsecutiveNewlines (Format E result) else Format E result"
  have c: "FilesProcessed stats' = FilesProcessed stats + 1 \<and>
     RemovedBlocksRemoved stats' = RemovedBlocksRemoved stats + of_nat (length ?rs) \<and>
     FilesModified stats' = FilesModified stats +
       (if ?rs \<noteq> [] \<or> ?f \<noteq> content then 1 else 0) \<and>
     (if ?rs \<noteq> [] \<or> ?f \<noteq> content
      then err = map_option (WriteError filePath) (fst (WriteFile E filePath ?f d))
           \<and> d' = snd (WriteFile E filePath ?f d)
      else err = None \<and> d' = d)"
  proof (cases "?rs = []")
    case True
    with assms False r show ?thesis
      by (auto simp: processFile_def Let_def split: if_splits prod.splits option.splits)
  next
    case ne: False
    with assms False r show ?thesis
      by (auto simp: processFile_def Let_def split: if_splits prod.splits option.splits)
  qed
  from False r n c show ?thesis by blast
qed

lemma resultContent_commented_tf:
  "resultContent commented_tf [\<lparr>range_start = 12, range_end = 23\<rparr>] = Some (''# removed {'' @ [LF])"
  by code_simp

theorem processFile_counters_witness:
  "separated commented_tf [\<lparr>range_start = 12, range_end = 23\<rparr>]
   \<and> (\<exists>err s' d' K.
        processFile
          (fixed_externals (SyntaxBody [\<lparr>Type = ''removed'', Start_Byte = 12, End_Byte = 23\<rparr>])
             (\<lambda>b. b) False)
          ''main.tf'' stats0 [''main.tf'' \<mapsto> commented_tf] = Some (err, s', d')
        \<and> FilesProcessed s' = 1 \<and> RemovedBlocksRemoved s' = 1 \<and> FilesModified s' = 1
        \<and> err = None \<and> d' ''main.tf'' = Some (nths commented_tf K))
   \<and> \<not> DryRun stats0"
proof -
  let ?blocks = "[\<lparr>Type = ''removed'', Start_Byte = 12, End_Byte = 23\<rparr>]"
  let ?E = "fixed_externals (SyntaxBody ?blocks) (\<lambda>b. b) False"
  let ?d = "[''main.tf'' \<mapsto> commented_tf]"
  have sep: "separated commented_tf [\<lparr>range_start = 12, range_end = 23\<rparr>]"
    by (simp add: commented_tf_def)
  obtain q where q: "processFile ?E ''main.tf'' stats0 ?d = Some q"
    using resultContent_commented_tf
    by (simp add: processFile_def fixed_externals_def stats0_def)
  obtain err s' d' where sd: "q = (err, s', d')" by (cases q)
  have 1: "?d ''main.tf'' = Some commented_tf" by simp
  have 2: "ParseConfig ?E commented_tf ''main.tf'' = SyntaxBody ?blocks"
    by (simp add: fixed_externals_def)
  from q sd have 3: "processFile ?E ''main.tf'' stats0 ?d = Some (err, s', d')" by simp
  have nd: "\<not> DryRun stats0" "\<not> NormalizeWhitespace stats0" by (simp_all add: stats0_def)
  from processFile_counters [OF 1 2 3] nd sep
  have "FilesProcessed s' = 1 \<and> RemovedBlocksRemoved s' = 1 \<and> FilesModified s' = 1
      \<and> err = None \<and> (\<exists>K. d' ''main.tf'' = Some (nths commented_tf K))"
    by (auto simp: fixed_externals_def stats0_def)
  with 3 sep nd show ?thesis by blast
qed

text \<open>
  C3 as stated fails twice. The text \<open>removed {\<close> stays in the output where it is not
  a top-level block the parser reports, as in a comment. And in a dry run a file whose
  formatted buffer differs from its content, with no range located, is not counted as
  modified.
\<close>

theorem processFile_counters_counterexample:
  "processFile
     (fixed_externals (SyntaxBody [\<lparr>Type = ''removed'', Start_Byte = 12, End_Byte = 23\<rparr>]) (\<lambda>b. b) False)
     ''main.tf'' stats0 [''main.tf'' \<mapsto> commented_tf]
   = Some (None, stats0\<lparr>FilesProcessed := 1, FilesModified := 1, RemovedBlocksRemoved := 1\<rparr>,
           [''main.tf'' \<mapsto> ''# removed {'' @ [LF]])
   \<and> sublist ''removed {'' (''# removed {'' @ [LF])
   \<and> processFile (fixed_externals (SyntaxBody []) spacing_formatter False)
        ''unformatted.tf'' (stats0\<lparr>DryRun := True\<rparr>) [''unformatted.tf'' \<mapsto> ''a=1'' @ [LF]]
      = Some (None, stats0\<lparr>DryRun := True, FilesProcessed := 1, FilesModified := 0\<rparr>,
              [''unformatted.tf'' \<mapsto> ''a=1'' @ [LF]])
   \<and> Format (fixed_externals (SyntaxBody []) spacing_formatter False) (''a=1'' @ [LF]) \<noteq> ''a=1'' @ [LF]"
proof -
  have "sublist ''removed {'' (''# removed {'' @ [LF])"
    by (simp add: sublist_Cons_right)
  then show ?thesis
    using resultContent_commented_tf
    by (simp add: processFile_def fixed_externals_def stats0_def spacing_formatter_def)
qed

end
